theory Spec2Isabelle
  imports Complex_Main "HOL-Library.Signed_Division" "HOL-Library.Multiset"
begin

section \<open>The MCTS player of \<^verbatim>\<open>TCG_project3/.../agent.h\<close>\<close>

text \<open>
  The development follows \<^verbatim>\<open>class player\<close> and its nested \<^verbatim>\<open>class node\<close>, compiled with
  \<^verbatim>\<open>#define ParallelAverageSelection\<close>.

  \<^item> C++ \<^verbatim>\<open>int\<close> is modelled by \<^typ>\<open>int\<close>; the counters of a search stay far below
    \<open>2^31\<close>, and signed overflow has no defined result in C++ anyway. \<^verbatim>\<open>/\<close> on \<^verbatim>\<open>int\<close>
    truncates towards zero and is written \<open>sdiv\<close>.
  \<^item> C++ \<^verbatim>\<open>float\<close> is modelled by \<^typ>\<open>real\<close>: the formulas are the ones of the source,
    evaluated without rounding.
  \<^item> \<^verbatim>\<open>board.h\<close> and \<^verbatim>\<open>action.h\<close> are not part of the sources at hand. The board is
    a type parameter \<open>'b\<close>; the two capabilities the player uses, placing a stone and
    reading whose turn it is, are fields of an environment record.
  \<^item> \<^verbatim>\<open>std::default_random_engine\<close> and \<^verbatim>\<open>std::shuffle\<close> are implementation defined. The
    engine state is a type parameter \<open>'g\<close> and shuffling is a field of the environment.
\<close>

subsection \<open>Boards, pieces, actions\<close>

text \<open>Modelled from the spec: the cell states of \<^verbatim>\<open>board::piece_type\<close> (\<^verbatim>\<open>board.h\<close> is
  missing): empty, the two players, hollow, and a value for anything else an
  \<^verbatim>\<open>unsigned\<close> may hold.\<close>

datatype piece_type = Empty | Black | White | Hollow | Unknown

text \<open>Modelled from the spec: the \<^verbatim>\<open>GameState\<close> capability (\<^verbatim>\<open>board.h\<close> is missing).
  \<open>place E b i\<close> is \<^verbatim>\<open>b.place(i)\<close>: \<open>None\<close> when the result is not \<^verbatim>\<open>board::legal\<close> (the
  board is then left as it was), \<open>Some b'\<close> with the board after the move otherwise.
  \<open>who_take_turns E b\<close> is \<^verbatim>\<open>b.info().who_take_turns\<close>. \<open>shuffle E xs g\<close> is
  \<^verbatim>\<open>std::shuffle(xs.begin(), xs.end(), engine)\<close>: the reordered vector and the engine
  after the call.\<close>

record ('b, 'g) env =
  place :: "'b \<Rightarrow> nat \<Rightarrow> 'b option"
  who_take_turns :: "'b \<Rightarrow> piece_type"
  shuffle :: "nat list \<Rightarrow> 'g \<Rightarrow> nat list \<times> 'g"

text \<open>Modelled from the spec: \<^verbatim>\<open>action()\<close>, the empty action that stands for "no move",
  and \<^verbatim>\<open>action::place(pos, who)\<close> (\<^verbatim>\<open>action.h\<close> is missing).\<close>

datatype action = action_empty | action_place nat piece_type

subsection \<open>Numeric limits\<close>

definition INT_MAX :: int where
  "INT_MAX = 2 ^ 31 - 1"

definition FLT_MAX :: real where
  "FLT_MAX = (2 - 1 / 2 ^ 23) * 2 ^ 127"

subsection \<open>Nodes\<close>

text \<open>
  \<^verbatim>\<open>class node : board\<close> with \<^verbatim>\<open>win_cnt\<close>, \<^verbatim>\<open>total_cnt\<close>, \<^verbatim>\<open>place_pos\<close> and
  \<^verbatim>\<open>std::unordered_map<int, node*> child\<close>. A node owns its children and no node has two
  parents, so the pointer structure is a tree and is modelled as one. \<open>child\<close> lists
  the entries of the map in its iteration order. The \<^verbatim>\<open>parent\<close> pointer is only read by
  \<^verbatim>\<open>ucb\<close>, for \<^verbatim>\<open>parent->total_cnt\<close>; the model hands that count to \<open>ucb\<close> as an argument.
  A \<^verbatim>\<open>node*\<close> into the tree below a root is the list of map keys leading to it.
\<close>

datatype 'b node =
  Node (brd: 'b) (win_cnt: int) (total_cnt: int) (place_pos: int) (child: "(nat \<times> 'b node) list")

text \<open>\<^verbatim>\<open>node(const board& state, int m = -1)\<close>\<close>

definition new_node :: "'b \<Rightarrow> int \<Rightarrow> 'b node" where
  "new_node state m = Node state 0 0 m []"

definition win_rate :: "'b node \<Rightarrow> real" where
  "win_rate n =
     (if total_cnt n = 0 then 0
      else real_of_int (win_cnt n) / real_of_int (total_cnt n))"

text \<open>\<open>ucb parent_total n c\<close> is \<^verbatim>\<open>n->ucb(c)\<close> where \<^verbatim>\<open>n->parent->total_cnt\<close> is
  \<open>parent_total\<close>.\<close>

definition ucb :: "int \<Rightarrow> 'b node \<Rightarrow> real \<Rightarrow> real" where
  "ucb parent_total n c =
     (if parent_total = 0 \<or> total_cnt n = 0 then win_rate n
      else win_rate n + c * sqrt (ln (real_of_int parent_total) / real_of_int (total_cnt n)))"

subsection \<open>The early-exit test of \<^verbatim>\<open>take_action\<close>\<close>

text \<open>The scan for the two largest entries of \<^verbatim>\<open>result\<close>; the accumulator is
  \<open>(max1, max2)\<close>.\<close>

fun max_two :: "int list \<Rightarrow> int \<times> int \<Rightarrow> int \<times> int" where
  "max_two [] acc = acc"
| "max_two (tmp # rs) (max1, max2) =
     (if tmp > max1 then max_two rs (tmp, max1)
      else if tmp > max2 then max_two rs (max1, tmp)
      else max_two rs (max1, max2))"

text \<open>\<^verbatim>\<open>N * thread_num - ((i * N / split) * thread_num)\<close>, where \<open>i\<close> is the index of
  the checkpoint; the source keeps no count of the iterations run. The products are
  those of unbounded integers: they agree with the 32-bit \<^verbatim>\<open>int\<close> of the source as long
  as \<open>i * N\<close> and \<open>N * thread_num\<close> stay below \<open>2 ^ 31\<close>, and the model does not follow
  the source beyond that.\<close>

definition remaining :: "int \<Rightarrow> int \<Rightarrow> int \<Rightarrow> int \<Rightarrow> int" where
  "remaining N thread_num split i = N * thread_num - ((i * N) sdiv split) * thread_num"

text \<open>\<^verbatim>\<open>float f = 0.5; max2 + f * remaining < max1\<close>\<close>

definition exit_test :: "int \<Rightarrow> int \<Rightarrow> int \<Rightarrow> bool" where
  "exit_test max1 max2 rem =
     (let f = (0.5 :: real) in real_of_int max2 + f * real_of_int rem < real_of_int max1)"

text \<open>Lines 146 to 161: the condition under which the checkpoint loop executes
  \<^verbatim>\<open>break\<close>.\<close>

definition early_exit :: "int \<Rightarrow> int \<Rightarrow> int \<Rightarrow> int \<Rightarrow> int list \<Rightarrow> bool" where
  "early_exit N thread_num split i result =
     (let (max1, max2) = max_two result (- INT_MAX, - INT_MAX)
      in exit_test max1 max2 (remaining N thread_num split i))"

subsection \<open>Selection\<close>

text \<open>\<^verbatim>\<open>all_space\<close>: the positions \<open>0..80\<close>, shuffled.\<close>

definition all_space :: "('b, 'g) env \<Rightarrow> 'g \<Rightarrow> nat list \<times> 'g" where
  "all_space E engine = shuffle E [0..<81] engine"

definition is_leaf :: "('b, 'g) env \<Rightarrow> 'b node \<Rightarrow> bool" where
  "is_leaf E n =
     (let cnt = length (filter (\<lambda>i. place E (brd n) i \<noteq> None) [0..<81])
      in \<not> (cnt > 0 \<and> length (child n) = cnt))"

text \<open>The \<^verbatim>\<open>for\<close> loop over \<^verbatim>\<open>curr->child\<close> in \<^verbatim>\<open>select_root_to_leaf\<close>. The accumulator is
  \<open>(max_score, c)\<close>; \<open>c\<close> is \<open>None\<close> while the pointer \<^verbatim>\<open>node* c\<close> has not been assigned.\<close>

fun ucb_scan ::
  "real \<Rightarrow> int \<Rightarrow> (nat \<times> 'b node) list \<Rightarrow> real \<times> (nat \<times> 'b node) option
    \<Rightarrow> real \<times> (nat \<times> 'b node) option" where
  "ucb_scan ucb_c pt [] acc = acc"
| "ucb_scan ucb_c pt ((k, ch) # rest) (max_score, c) =
     (let tmp = ucb pt ch ucb_c
      in if tmp > max_score then ucb_scan ucb_c pt rest (tmp, Some (k, ch))
         else ucb_scan ucb_c pt rest (max_score, c))"

text \<open>\<^verbatim>\<open>select_root_to_leaf\<close>. The result is the path below \<open>cur\<close>, as the keys taken;
  the vector of the source is \<open>cur\<close> followed by the nodes along these keys. The
  unused parameter \<^verbatim>\<open>who\<close> is left out. Pushing a pointer that was never assigned has
  no defined behaviour; the model returns \<open>None\<close> there.\<close>

function select_root_to_leaf :: "('b, 'g) env \<Rightarrow> real \<Rightarrow> 'b node \<Rightarrow> nat list option" where
  "select_root_to_leaf E ucb_c cur =
     (if is_leaf E cur then Some []
      else if length (child cur) = 0 then Some []
      else (case snd (ucb_scan ucb_c (total_cnt cur) (child cur) (- FLT_MAX, None)) of
              None \<Rightarrow> None
            | Some (k, c) \<Rightarrow> map_option ((#) k) (select_root_to_leaf E ucb_c c)))"
  by pat_completeness auto
termination
proof (relation "measure (\<lambda>(E, ucb_c, cur). size cur)", goal_cases)
  case 1
  show ?case by simp
next
  case (2 E ucb_c cur x2 k c)
  have scan: "snd (ucb_scan ucb_c pt chs (m, c0)) \<in> insert c0 (Some ` set chs)"
    for pt m c0 chs
  proof (induction chs arbitrary: m c0)
    case Nil
    show ?case by simp
  next
    case (Cons e chs)
    obtain k' ch where e: "e = (k', ch)" by (cases e)
    show ?case
      using Cons [of "ucb pt ch ucb_c" "Some (k', ch)"] Cons [of m c0]
      by (auto simp: e Let_def)
  qed
  from 2 scan [of "total_cnt cur" "child cur" "- FLT_MAX" None]
  have mem: "(k, c) \<in> set (child cur)"
    by auto
  have "size c < size cur"
  proof (cases cur)
    case (Node b w t p chs)
    with mem have "(k, c) \<in> set chs" by simp
    then have "size c < Suc (size_list (size_prod (\<lambda>_. 0) size) chs)"
      by (induction chs) auto
    with Node show ?thesis by simp
  qed
  then show ?case by simp
qed

declare select_root_to_leaf.simps [simp del]

text \<open>Following a path of keys from a node, and changing the node at its end.\<close>

fun node_at :: "nat list \<Rightarrow> 'b node \<Rightarrow> 'b node option" where
  "node_at [] n = Some n"
| "node_at (k # ks) n = (case map_of (child n) k of None \<Rightarrow> None | Some c \<Rightarrow> node_at ks c)"

definition map_child :: "nat \<Rightarrow> ('b node \<Rightarrow> 'b node) \<Rightarrow> (nat \<times> 'b node) list \<Rightarrow> (nat \<times> 'b node) list" where
  "map_child k f chs = map (\<lambda>(k', c). if k' = k then (k', f c) else (k', c)) chs"

fun update_at :: "nat list \<Rightarrow> ('b node \<Rightarrow> 'b node) \<Rightarrow> 'b node \<Rightarrow> 'b node" where
  "update_at [] f n = f n"
| "update_at (k # ks) f n =
     Node (brd n) (win_cnt n) (total_cnt n) (place_pos n) (map_child k (update_at ks f) (child n))"

subsection \<open>Expansion\<close>

text \<open>The \<^verbatim>\<open>for\<close> loop of \<^verbatim>\<open>expand_from_leaf\<close>: the first position of \<open>vec\<close> that is legal
  on the node's board and is not yet a key of \<^verbatim>\<open>child\<close>, with the board after the move.\<close>

fun first_free :: "('b, 'g) env \<Rightarrow> 'b node \<Rightarrow> nat list \<Rightarrow> (nat \<times> 'b) option" where
  "first_free E n [] = None"
| "first_free E n (p # ps) =
     (case place E (brd n) p of
        Some b \<Rightarrow> if p \<notin> set (map fst (child n)) then Some (p, b) else first_free E n ps
      | None \<Rightarrow> first_free E n ps)"

text \<open>\<^verbatim>\<open>expand_from_leaf\<close> returns the node after the call, the key of the new child
  (\<open>None\<close> when the source returns \<^verbatim>\<open>this\<close>), and the engine. The new entry of the
  unordered map is put last in the iteration order.\<close>

definition expand_from_leaf ::
  "('b, 'g) env \<Rightarrow> 'g \<Rightarrow> 'b node \<Rightarrow> ('b node \<times> nat option) \<times> 'g" where
  "expand_from_leaf E engine n =
     (let (vec, engine') = all_space E engine
      in case first_free E n vec of
           Some (pos, b) \<Rightarrow>
             ((Node (brd n) (win_cnt n) (total_cnt n) (place_pos n)
                 (child n @ [(pos, new_node b (int pos))]), Some pos), engine')
         | None \<Rightarrow> ((n, None), engine'))"

subsection \<open>Simulation\<close>

text \<open>The \<^verbatim>\<open>while\<close> loop of \<^verbatim>\<open>simulate_winner\<close> on the board \<open>b\<close>, the queue \<open>q\<close> and the
  counter \<open>cnt\<close>; the result is the board and the queue when the loop is left.
  \<open>steps\<close> counts the iterations; it is not a variable of the source and no branch
  reads it. Reading the front of an empty queue has no defined behaviour: \<open>None\<close>.
  \<open>None\<close> is also the value of a loop that never ends.\<close>

partial_function (option) rollout ::
  "('b, 'g) env \<Rightarrow> 'b \<Rightarrow> nat list \<Rightarrow> nat \<Rightarrow> nat \<Rightarrow> ('b \<times> nat list \<times> nat) option" where
  "rollout E b q cnt steps =
     (if cnt \<noteq> length q then
        (case q of
           [] \<Rightarrow> None
         | i # rest \<Rightarrow>
             (case place E b i of
                None \<Rightarrow> rollout E b (rest @ [i]) (cnt + 1) (steps + 1)
              | Some b' \<Rightarrow> rollout E b' rest 0 (steps + 1)))
      else Some (b, q, steps))"

declare rollout.simps [code]

definition simulate_winner ::
  "('b, 'g) env \<Rightarrow> 'g \<Rightarrow> 'b node \<Rightarrow> (piece_type \<times> 'g) option" where
  "simulate_winner E engine n =
     (let (vec, engine') = all_space E engine
      in case rollout E (brd n) vec 0 0 of
           None \<Rightarrow> None
         | Some (b, q, steps) \<Rightarrow>
             Some (if who_take_turns E b = White then Black else White, engine'))"




subsection \<open>Backpropagation\<close>

text \<open>The body of the loop of \<^verbatim>\<open>back_propagate\<close>, on one node of the path.\<close>

definition visit :: "('b, 'g) env \<Rightarrow> piece_type \<Rightarrow> 'b node \<Rightarrow> 'b node" where
  "visit E winner n =
     Node (brd n)
       (if winner \<noteq> who_take_turns E (brd n) then win_cnt n + 1 else win_cnt n - 1)
       (total_cnt n + 1) (place_pos n) (child n)"

text \<open>\<^verbatim>\<open>back_propagate\<close> walks the path from its first node: \<open>n\<close> is \<^verbatim>\<open>path[i]\<close> and the
  keys are those leading to \<^verbatim>\<open>path[i+1]\<close>, ...\<close>

fun back_propagate :: "('b, 'g) env \<Rightarrow> nat list \<Rightarrow> piece_type \<Rightarrow> 'b node \<Rightarrow> 'b node" where
  "back_propagate E [] winner n = visit E winner n"
| "back_propagate E (k # ks) winner n =
     Node (brd n)
       (if winner \<noteq> who_take_turns E (brd n) then win_cnt n + 1 else win_cnt n - 1)
       (total_cnt n + 1) (place_pos n)
       (map_child k (back_propagate E ks winner) (child n))"

subsection \<open>The search loop\<close>

text \<open>\<^verbatim>\<open>select_action\<close>: the loop over \<^verbatim>\<open>child\<close> with accumulator \<open>(max_visit, c)\<close>, then
  the function. \<open>None\<close> stands for the read of a pointer never assigned.\<close>

fun visit_scan :: "(nat \<times> 'b node) list \<Rightarrow> int \<times> 'b node option \<Rightarrow> int \<times> 'b node option" where
  "visit_scan [] acc = acc"
| "visit_scan ((k, ch) # rest) (max_visit, c) =
     (let tmp = total_cnt ch
      in if tmp > max_visit then visit_scan rest (tmp, Some ch)
         else visit_scan rest (max_visit, c))"

definition select_action :: "'b node \<Rightarrow> int option" where
  "select_action n =
     (if length (child n) = 0 then Some (- 1)
      else (case snd (visit_scan (child n) (- INT_MAX, None)) of
              None \<Rightarrow> None
            | Some c \<Rightarrow> Some (place_pos c)))"

text \<open>One pass through the body of the \<^verbatim>\<open>for\<close> loop of \<^verbatim>\<open>MCTS\<close>: select, expand, simulate,
  back propagate. \<open>path\<close> holds the keys below the root \<open>tree\<close>; \<open>path.back()\<close> is the node they
  lead to.\<close>

definition cycle :: "('b, 'g) env \<Rightarrow> real \<Rightarrow> 'b node \<Rightarrow> 'g \<Rightarrow> ('b node \<times> 'g) option" where
  "cycle E ucb_c tree engine =
     (case select_root_to_leaf E ucb_c tree of
        None \<Rightarrow> None
      | Some path \<Rightarrow>
          (case node_at path tree of
             None \<Rightarrow> None
           | Some leaf \<Rightarrow>
               (let ((leaf', expanded), engine1) = expand_from_leaf E engine leaf;
                    tree1 = update_at path (\<lambda>_. leaf') tree;
                    path1 = (case expanded of None \<Rightarrow> path | Some pos \<Rightarrow> path @ [pos])
                in case node_at path1 tree1 of
                     None \<Rightarrow> None
                   | Some back \<Rightarrow>
                       (case simulate_winner E engine1 back of
                          None \<Rightarrow> None
                        | Some (winner, engine2) \<Rightarrow>
                            Some (back_propagate E path1 winner tree1, engine2)))))"

fun MCTS_loop :: "('b, 'g) env \<Rightarrow> real \<Rightarrow> nat \<Rightarrow> 'b node \<Rightarrow> 'g \<Rightarrow> ('b node \<times> 'g) option" where
  "MCTS_loop E ucb_c 0 tree engine = Some (tree, engine)"
| "MCTS_loop E ucb_c (Suc n) tree engine =
     (case cycle E ucb_c tree engine of
        None \<Rightarrow> None
      | Some (tree', engine') \<Rightarrow> MCTS_loop E ucb_c n tree' engine')"

text \<open>\<^verbatim>\<open>root->MCTS(N, engine, ucb_c)\<close>: the move returned, the tree and the engine after
  the call. The loop \<^verbatim>\<open>for (int i = 0; i < N; ++i)\<close> runs \<open>nat N\<close> times.\<close>

definition MCTS ::
  "('b, 'g) env \<Rightarrow> int \<Rightarrow> 'g \<Rightarrow> real \<Rightarrow> 'b node \<Rightarrow> (int \<times> 'b node \<times> 'g) option" where
  "MCTS E N engine ucb_c tree =
     (case MCTS_loop E ucb_c (nat N) tree engine of
        None \<Rightarrow> None
      | Some (tree', engine') \<Rightarrow>
          (case select_action tree' of
             None \<Rightarrow> None
           | Some a \<Rightarrow> Some (a, tree', engine')))"

subsection \<open>\<^verbatim>\<open>player::take_action\<close>, parallel average selection\<close>

text \<open>
  The data the threads work on: \<^verbatim>\<open>root_vec\<close>, \<^verbatim>\<open>average_selection\<close>, and the member
  \<^verbatim>\<open>engine\<close> of \<^verbatim>\<open>random_agent\<close>, which every thread passes by reference to \<^verbatim>\<open>MCTS\<close>.
\<close>

record ('b, 'g) search_state =
  root_vec :: "'b node list"
  average_selection :: "int list list"
  engine :: "'g"

text \<open>
  \<^verbatim>\<open>#pragma omp parallel\<close> with \<^verbatim>\<open>thread_num\<close> threads: the block is run once for every
  \<^verbatim>\<open>id\<close> below \<^verbatim>\<open>thread_num\<close> (\<open>tid\<close> in the model). The model runs the blocks one after
  the other in the order of the ids; the source gives them no order, and its threads
  use the one engine without synchronisation.
\<close>

fun omp_parallel_ids :: "(nat \<Rightarrow> 's \<Rightarrow> 's option) \<Rightarrow> nat list \<Rightarrow> 's \<Rightarrow> 's option" where
  "omp_parallel_ids block [] s = Some s"
| "omp_parallel_ids block (tid # ids) s =
     (case block tid s of None \<Rightarrow> None | Some s' \<Rightarrow> omp_parallel_ids block ids s')"

definition omp_parallel :: "(nat \<Rightarrow> 's \<Rightarrow> 's option) \<Rightarrow> nat \<Rightarrow> 's \<Rightarrow> 's option" where
  "omp_parallel block thread_num s = omp_parallel_ids block [0..<thread_num] s"

text \<open>The block of lines 114 to 123: \<^verbatim>\<open>root_vec[id]->MCTS(N / 4, engine, c)\<close>.\<close>

definition first_pass ::
  "('b, 'g) env \<Rightarrow> int \<Rightarrow> real \<Rightarrow> nat \<Rightarrow> ('b, 'g) search_state \<Rightarrow> ('b, 'g) search_state option" where
  "first_pass E N c tid s =
     (case MCTS E (N sdiv 4) (engine s) c (root_vec s ! tid) of
        None \<Rightarrow> None
      | Some (a, t, g) \<Rightarrow> Some (s\<lparr>root_vec := (root_vec s)[tid := t], engine := g\<rparr>))"

text \<open>The loop of lines 132 to 134 over the children of the root, on the row
  \<^verbatim>\<open>average_selection[id]\<close>. A key outside the row would be a write out of bounds in
  the source; the keys come from \<^verbatim>\<open>all_space\<close>.\<close>

fun record_children :: "(nat \<times> 'b node) list \<Rightarrow> int list \<Rightarrow> int list" where
  "record_children [] row = row"
| "record_children ((k, ch) # rest) row = record_children rest (row[k := total_cnt ch])"

text \<open>The block of lines 127 to 136.\<close>

definition checkpoint_pass ::
  "('b, 'g) env \<Rightarrow> int \<Rightarrow> int \<Rightarrow> real \<Rightarrow> nat \<Rightarrow> ('b, 'g) search_state
    \<Rightarrow> ('b, 'g) search_state option" where
  "checkpoint_pass E N split c tid s =
     (case MCTS E (N sdiv split) (engine s) c (root_vec s ! tid) of
        None \<Rightarrow> None
      | Some (a, t, g) \<Rightarrow>
          Some (s\<lparr>root_vec := (root_vec s)[tid := t],
                 average_selection :=
                   (average_selection s)[tid := record_children (child t) (average_selection s ! tid)],
                 engine := g\<rparr>))"

text \<open>\<^verbatim>\<open>result[j] += average_selection[i][j]\<close> for all \<^verbatim>\<open>j < 81\<close> and \<^verbatim>\<open>i < thread_num\<close>.\<close>

definition sum_result :: "nat \<Rightarrow> int list list \<Rightarrow> int list" where
  "sum_result thread_num avs =
     map (\<lambda>j. sum_list (map (\<lambda>i. avs ! i ! j) [0..<thread_num])) [0..<81]"

text \<open>\<^verbatim>\<open>for (int i = split / 4 + 1; i <= split; ++i)\<close> with the \<^verbatim>\<open>break\<close> of line 160.\<close>

function checkpoints ::
  "('b, 'g) env \<Rightarrow> int \<Rightarrow> real \<Rightarrow> nat \<Rightarrow> int \<Rightarrow> int \<Rightarrow> ('b, 'g) search_state
    \<Rightarrow> ('b, 'g) search_state option" where
  "checkpoints E N c thread_num split i s =
     (if i \<le> split then
        (case omp_parallel (checkpoint_pass E N split c) thread_num s of
           None \<Rightarrow> None
         | Some s' \<Rightarrow>
             if early_exit N (int thread_num) split i (sum_result thread_num (average_selection s'))
             then Some s'
             else checkpoints E N c thread_num split (i + 1) s')
      else Some s)"
  by pat_completeness auto
termination
  by (relation "measure (\<lambda>(E, N, c, thread_num, split, i, s). nat (split + 1 - i))") auto

declare checkpoints.simps [simp del]

text \<open>Lines 101 to 162 of \<^verbatim>\<open>take_action\<close>, with \<^verbatim>\<open>thread_num\<close> for
  \<^verbatim>\<open>omp_get_num_procs()\<close>. The trees are returned instead of deleted, so that their
  counters can be read.\<close>

definition search ::
  "('b, 'g) env \<Rightarrow> int \<Rightarrow> real \<Rightarrow> nat \<Rightarrow> 'b \<Rightarrow> 'g \<Rightarrow> ('b, 'g) search_state option" where
  "search E N c thread_num state g =
     (let s0 = \<lparr>root_vec = replicate thread_num (new_node state (- 1)),
                average_selection = replicate thread_num (replicate 81 0),
                engine = g\<rparr>;
          split = N sdiv 1000
      in case omp_parallel (first_pass E N c) thread_num s0 of
           None \<Rightarrow> None
         | Some s1 \<Rightarrow> checkpoints E N c thread_num split (split sdiv 4 + 1) s1)"

text \<open>\<^verbatim>\<open>std::max_element\<close>: the index of the first largest entry. The arguments of the
  scan are the entries still to be read, the index of the next one, the largest value
  so far and its index.\<close>

fun max_element_scan :: "int list \<Rightarrow> nat \<Rightarrow> int \<Rightarrow> nat \<Rightarrow> nat" where
  "max_element_scan [] first largest_val largest = largest"
| "max_element_scan (x # xs) first largest_val largest =
     (if largest_val < x then max_element_scan xs (first + 1) x first
      else max_element_scan xs (first + 1) largest_val largest)"

definition max_element :: "int list \<Rightarrow> nat" where
  "max_element xs = (case xs of [] \<Rightarrow> 0 | x # rest \<Rightarrow> max_element_scan rest 1 x 0)"

text \<open>Lines 168 to 180: the move chosen from the rows of \<^verbatim>\<open>average_selection\<close>.\<close>

definition decide :: "('b, 'g) env \<Rightarrow> nat \<Rightarrow> 'b \<Rightarrow> int list list \<Rightarrow> action" where
  "decide E thread_num state avs =
     (let result = sum_result thread_num avs;
          iter = max_element result
      in if result ! iter = 0 then action_empty
         else action_place iter (who_take_turns E state))"

text \<open>\<^verbatim>\<open>take_action(state, steps)\<close> with \<^verbatim>\<open>N = meta["N"]\<close> and \<^verbatim>\<open>c = meta["c"]\<close>; \<^verbatim>\<open>steps\<close> is
  not used. This is the body from line 99 on, for the values \<open>N\<close> and \<open>c\<close> that the
  conversions of lines 97 and 98 have produced; \<open>take_action_call\<close> below adds the
  conversions. The result is the action and the engine after the call; \<open>None\<close> stands
  for a call that has no defined result or does not return.\<close>

definition take_action ::
  "('b, 'g) env \<Rightarrow> int \<Rightarrow> real \<Rightarrow> nat \<Rightarrow> 'b \<Rightarrow> 'g \<Rightarrow> (action \<times> 'g) option" where
  "take_action E N c thread_num state g =
     (if N \<noteq> 0 then
        (case search E N c thread_num state g of
           None \<Rightarrow> None
         | Some s \<Rightarrow> Some (decide E thread_num state (average_selection s), engine s))
      else Some (action_empty, g))"

subsection \<open>The configuration read by \<^verbatim>\<open>take_action\<close>\<close>

text \<open>
  Lines 97 and 98, \<^verbatim>\<open>int N = meta["N"]; float c = meta["c"];\<close>, go through
  \<^verbatim>\<open>value::operator numeric\<close> (line 56), which is \<^verbatim>\<open>numeric(std::stod(value))\<close>.
  \<^verbatim>\<open>std::stod\<close> is library code: it either returns a number or throws one of two
  exceptions. The model takes it as a parameter \<open>stod\<close>, with \<open>Inl\<close> for a throw.
\<close>

datatype exception = invalid_argument | out_of_range

text \<open>\<^verbatim>\<open>meta[key]\<close> on a \<^verbatim>\<open>std::map\<close>: a key that is absent is entered with the empty
  string as its value, and that value is returned. The entry made in the map is not
  modelled; nothing reads it in \<^verbatim>\<open>take_action\<close>.\<close>

definition meta_at :: "(string \<rightharpoonup> string) \<Rightarrow> string \<Rightarrow> string" where
  "meta_at meta key = (case meta key of None \<Rightarrow> [] | Some v \<Rightarrow> v)"

text \<open>\<^verbatim>\<open>int(d)\<close> for a \<^verbatim>\<open>double\<close>: the fraction is dropped; the conversion has no defined
  behaviour when the result does not fit an \<^verbatim>\<open>int\<close> (\<open>None\<close>). \<^verbatim>\<open>float(d)\<close> is the number
  itself, \<^verbatim>\<open>float\<close> being modelled by \<open>real\<close>.\<close>

definition to_int :: "real \<Rightarrow> int option" where
  "to_int d =
     (let t = (if 0 \<le> d then \<lfloor>d\<rfloor> else \<lceil>d\<rceil>)
      in if - INT_MAX - 1 \<le> t \<and> t \<le> INT_MAX then Some t else None)"

text \<open>The whole of \<^verbatim>\<open>take_action\<close>: the two conversions, then the body \<open>take_action\<close>
  above. An exception thrown by a conversion leaves the function at once and is the
  result of the call (\<open>Inl\<close>); \<open>N\<close> is converted before \<open>c\<close>.\<close>

definition take_action_call ::
  "('b, 'g) env \<Rightarrow> (string \<Rightarrow> exception + real) \<Rightarrow> (string \<rightharpoonup> string) \<Rightarrow> nat \<Rightarrow> 'b \<Rightarrow> 'g
    \<Rightarrow> (exception + action \<times> 'g) option" where
  "take_action_call E stod meta thread_num state g =
     (case stod (meta_at meta ''N'') of
        Inl e \<Rightarrow> Some (Inl e)
      | Inr dN \<Rightarrow>
          (case to_int dN of
             None \<Rightarrow> None
           | Some N \<Rightarrow>
               (case stod (meta_at meta ''c'') of
                  Inl e \<Rightarrow> Some (Inl e)
                | Inr c \<Rightarrow> map_option Inr (take_action E N c thread_num state g))))"

subsection \<open>Well-formed trees\<close>

text \<open>
  What every tree built by \<^verbatim>\<open>MCTS\<close> from a fresh root satisfies, at each node: the wins
  lie between minus and plus the visits, the keys of \<^verbatim>\<open>child\<close> are distinct (it is a
  map), and the visits of the children add up to at most the visits of the node.
\<close>

fun tree_ok :: "'b node \<Rightarrow> bool" where
  "tree_ok (Node b w t p chs) =
     (\<bar>w\<bar> \<le> t \<and> distinct (map fst chs) \<and> sum_list (map (\<lambda>e. total_cnt (snd e)) chs) \<le> t
      \<and> (\<forall>e\<in>set chs. tree_ok (snd e)))"



subsection \<open>States of the workers\<close>

text \<open>\<open>workers_at W k j n s\<close>: there are \<open>W\<close> well-formed trees; the roots of the workers
  below \<open>j\<close> have been visited \<open>k + n\<close> times, the roots of the others \<open>k\<close> times.\<close>

definition workers_at :: "nat \<Rightarrow> int \<Rightarrow> nat \<Rightarrow> int \<Rightarrow> ('b, 'g) search_state \<Rightarrow> bool" where
  "workers_at W k j n s \<longleftrightarrow>
     length (root_vec s) = W
     \<and> (\<forall>i<W. tree_ok (root_vec s ! i)
           \<and> total_cnt (root_vec s ! i) = (if i < j then k + n else k))"

text \<open>\<open>stuck_workers W state s\<close>: there are \<open>W\<close> roots on the board \<open>state\<close>, none of them
  has a child, and \<^verbatim>\<open>average_selection\<close> is still all zero.\<close>

definition stuck_workers :: "nat \<Rightarrow> 'b \<Rightarrow> ('b, 'g) search_state \<Rightarrow> bool" where
  "stuck_workers W state s \<longleftrightarrow>
     length (root_vec s) = W
     \<and> (\<forall>i<W. child (root_vec s ! i) = [] \<and> brd (root_vec s ! i) = state)
     \<and> average_selection s = replicate W (replicate 81 0)"

text \<open>\<open>legal_root E state t\<close>: the root \<open>t\<close> carries the board \<open>state\<close> and every key of its
  \<^verbatim>\<open>child\<close> map is a legal position on that board. \<open>legal_rows E state W s\<close>: that holds
  for the \<open>W\<close> roots, and every non-zero entry of a row of \<^verbatim>\<open>average_selection\<close> sits at
  a legal position.\<close>

definition legal_root :: "('b, 'g) env \<Rightarrow> 'b \<Rightarrow> 'b node \<Rightarrow> bool" where
  "legal_root E state t \<longleftrightarrow>
     brd t = state \<and> (\<forall>k\<in>set (map fst (child t)). place E state k \<noteq> None)"

definition legal_rows :: "('b, 'g) env \<Rightarrow> 'b \<Rightarrow> nat \<Rightarrow> ('b, 'g) search_state \<Rightarrow> bool" where
  "legal_rows E state W s \<longleftrightarrow>
     length (root_vec s) = W \<and> length (average_selection s) = W
     \<and> (\<forall>i<W. legal_root E state (root_vec s ! i)
           \<and> length (average_selection s ! i) = 81
           \<and> (\<forall>p<81. average_selection s ! i ! p \<noteq> 0 \<longrightarrow> place E state p \<noteq> None))"

subsection \<open>A small game for concrete runs\<close>

text \<open>
  A board is the list of positions still playable and the player to move; a legal
  move removes its position and passes the turn. The engine is a counter, and
  shuffling rotates the vector by it.
\<close>

definition toy_place :: "nat list \<times> piece_type \<Rightarrow> nat \<Rightarrow> (nat list \<times> piece_type) option" where
  "toy_place b i =
     (if i \<in> set (fst b) then Some (remove1 i (fst b), if snd b = Black then White else Black)
      else None)"

definition toy :: "(nat list \<times> piece_type, nat) env" where
  "toy = \<lparr>place = toy_place, who_take_turns = snd, shuffle = (\<lambda>xs g. (rotate g xs, g + 1))\<rparr>"

text \<open>
  A conversion for concrete runs: a non-empty string of decimal digits has its value,
  and no other string has a conversion. On the strings used below it agrees with
  \<^verbatim>\<open>std::stod\<close>, which throws \<^verbatim>\<open>std::invalid_argument\<close> for the empty string and for
  \<^verbatim>\<open>abc\<close>.
\<close>

definition digit_of :: "char \<Rightarrow> nat option" where
  "digit_of ch =
     (if ch = CHR ''0'' then Some 0 else if ch = CHR ''1'' then Some 1
      else if ch = CHR ''2'' then Some 2 else if ch = CHR ''3'' then Some 3
      else if ch = CHR ''4'' then Some 4 else if ch = CHR ''5'' then Some 5
      else if ch = CHR ''6'' then Some 6 else if ch = CHR ''7'' then Some 7
      else if ch = CHR ''8'' then Some 8 else if ch = CHR ''9'' then Some 9
      else None)"

fun digits_value :: "string \<Rightarrow> nat \<Rightarrow> nat option" where
  "digits_value [] acc = Some acc"
| "digits_value (ch # cs) acc =
     (case digit_of ch of None \<Rightarrow> None | Some d \<Rightarrow> digits_value cs (10 * acc + d))"

definition stod_digits :: "string \<Rightarrow> exception + real" where
  "stod_digits v =
     (if v = [] then Inl invalid_argument
      else case digits_value v 0 of
             None \<Rightarrow> Inl invalid_argument
           | Some n \<Rightarrow> Inr (real n))"

section \<open>Theorems\<close>

lemma max_two_spec:
  "max_two xs (a, b) = (m1, m2) \<Longrightarrow> b \<le> a \<Longrightarrow>
     a \<le> m1 \<and> b \<le> m2 \<and> m2 \<le> m1
     \<and> (\<exists>rest. mset (a # b # xs) = {#m1, m2#} + rest \<and> (\<forall>y\<in>#rest. y \<le> m2))"
proof (induction xs arbitrary: a b)
  case Nil
  then show ?case by auto
next
  case (Cons x xs)
  show ?case
  proof (cases "x > a")
    case True
    with Cons.prems have run: "max_two xs (x, a) = (m1, m2)" by simp
    from Cons.IH [OF run] True obtain rest where
      b: "x \<le> m1" "a \<le> m2" "m2 \<le> m1" and
      r: "mset (x # a # xs) = {#m1, m2#} + rest" "\<forall>y\<in>#rest. y \<le> m2"
      by auto
    have "mset (a # b # x # xs) = mset (x # a # xs) + {#b#}"
      by (simp add: add_mset_commute)
    then have "mset (a # b # x # xs) = {#m1, m2#} + (rest + {#b#})"
      unfolding r(1) by simp
    moreover have "\<forall>y\<in>#rest + {#b#}. y \<le> m2"
      using r(2) b Cons.prems(2) by auto
    ultimately show ?thesis using b Cons.prems(2) True by (intro conjI exI[of _ "rest + {#b#}"]) auto
  next
    case False
    note nota = False
    show ?thesis
    proof (cases "x > b")
      case True
      with Cons.prems nota have run: "max_two xs (a, x) = (m1, m2)" by simp
      from Cons.IH [OF run] nota obtain rest where
        b: "a \<le> m1" "x \<le> m2" "m2 \<le> m1" and
        r: "mset (a # x # xs) = {#m1, m2#} + rest" "\<forall>y\<in>#rest. y \<le> m2"
        by auto
      have "mset (a # b # x # xs) = mset (a # x # xs) + {#b#}"
        by (simp add: add_mset_commute)
      then have "mset (a # b # x # xs) = {#m1, m2#} + (rest + {#b#})"
        unfolding r(1) by simp
      moreover have "\<forall>y\<in>#rest + {#b#}. y \<le> m2"
        using r(2) b True by auto
      ultimately show ?thesis using b True by (intro conjI exI[of _ "rest + {#b#}"]) auto
    next
      case False
      with Cons.prems nota have run: "max_two xs (a, b) = (m1, m2)" by simp
      from Cons.IH [OF run Cons.prems(2)] obtain rest where
        b: "a \<le> m1" "b \<le> m2" "m2 \<le> m1" and
        r: "mset (a # b # xs) = {#m1, m2#} + rest" "\<forall>y\<in>#rest. y \<le> m2"
        by auto
      have "mset (a # b # x # xs) = mset (a # b # xs) + {#x#}"
        by (simp add: add_mset_commute)
      then have "mset (a # b # x # xs) = {#m1, m2#} + (rest + {#x#})"
        unfolding r(1) by simp
      moreover have "\<forall>y\<in>#rest + {#x#}. y \<le> m2"
        using r(2) b False by auto
      ultimately show ?thesis using b by (intro conjI exI[of _ "rest + {#x#}"]) auto
    qed
  qed
qed

lemma max_two_first_two:
  "s < x \<Longrightarrow> s < y \<Longrightarrow> max_two (x # y # rs) (s, s) = max_two rs (max x y, min x y)"
  by (auto simp: max_def min_def)

text \<open>
  The test of the checkpoint loop: the scan leaves the two largest entries of the
  aggregate vector in \<open>max1\<close> and \<open>max2\<close> (the other entries are all at most \<open>max2\<close>), and
  the loop breaks exactly when \<open>max2 + 0.5 * (N * W - (i * N / split) * W) < max1\<close>,
  with \<open>i\<close> the index of the checkpoint.
\<close>

lemma early_exit_scan:
  assumes "2 \<le> length result"
    and "\<forall>r\<in>set result. - INT_MAX < r"
    and "max_two result (- INT_MAX, - INT_MAX) = (max1, max2)"
  shows "max2 \<le> max1
    \<and> (\<exists>rest. mset result = {#max1, max2#} + rest \<and> (\<forall>y\<in>#rest. y \<le> max2))
    \<and> (early_exit N W split i result \<longleftrightarrow>
          real_of_int max2 + 0.5 * real_of_int (N * W - ((i * N) sdiv split) * W)
            < real_of_int max1)"
proof -
  from assms(1) obtain x y rs where res: "result = x # y # rs"
    by (cases result; cases "tl result") auto
  with assms(2) have sx: "- INT_MAX < x" "- INT_MAX < y" by auto
  from assms(3) have run: "max_two rs (max x y, min x y) = (max1, max2)"
    unfolding res max_two_first_two [OF sx] .
  have "min x y \<le> max x y" by simp
  from max_two_spec [OF run this] obtain rest where
    le: "max2 \<le> max1" and eq: "mset (max x y # min x y # rs) = {#max1, max2#} + rest"
    and bound: "\<forall>y\<in>#rest. y \<le> max2"
    by blast
  have same: "mset result = mset (max x y # min x y # rs)"
    by (simp add: res max_def min_def)
  have "mset result = {#max1, max2#} + rest"
    by (simp only: same eq)
  with bound have two: "\<exists>rest. mset result = {#max1, max2#} + rest \<and> (\<forall>y\<in>#rest. y \<le> max2)"
    by blast
  have test: "early_exit N W split i result \<longleftrightarrow>
      real_of_int max2 + 0.5 * real_of_int (N * W - ((i * N) sdiv split) * W) < real_of_int max1"
    by (simp add: early_exit_def assms(3) exit_test_def remaining_def)
  from le two test show ?thesis by blast
qed

text \<open>
  C2. For a node with a parent, \<open>ucb\<close> is
  \<open>win_rate + c * sqrt (ln (parent visit count) / visit count)\<close> when both counts are
  positive and \<open>win_rate\<close> alone when either count is \<open>0\<close>; \<open>win_rate\<close> is
  \<open>win_cnt / total_cnt\<close>, and \<open>0\<close> when \<open>total_cnt\<close> is \<open>0\<close>.
\<close>

theorem ucb_formula:
  "(0 < p \<and> 0 < total_cnt n \<longrightarrow>
      ucb p n c = win_rate n + c * sqrt (ln (real_of_int p) / real_of_int (total_cnt n)))
   \<and> (p = 0 \<or> total_cnt n = 0 \<longrightarrow> ucb p n c = win_rate n)
   \<and> (total_cnt n \<noteq> 0 \<longrightarrow> win_rate n = real_of_int (win_cnt n) / real_of_int (total_cnt n))
   \<and> (total_cnt n = 0 \<longrightarrow> win_rate n = 0)"
  by (simp add: ucb_def win_rate_def)

theorem ucb_formula_witness:
  "ucb 5 (Node () 1 2 0 []) 3 = 1 / 2 + 3 * sqrt (ln 5 / 2)
   \<and> ucb 0 (Node () 1 2 0 []) 3 = 1 / 2
   \<and> ucb 4 (Node () 0 0 0 []) 3 = 0"
  using ucb_formula [of 5 "Node () 1 2 0 []" 3] ucb_formula [of 0 "Node () 1 2 0 []" 3]
    ucb_formula [of 4 "Node () 0 0 0 []" 3]
  by simp

subsection \<open>The rollout loop\<close>

lemma rollout_run:
  "cnt \<le> length q \<Longrightarrow> \<forall>i\<in>set (drop (length q - cnt) q). place E b i = None \<Longrightarrow>
   \<exists>b' q' k. rollout E b q cnt steps = Some (b', q', steps + k)
      \<and> k \<le> length q * length q + length q - cnt
      \<and> (\<forall>i\<in>set q'. place E b' i = None)
      \<and> set q' \<subseteq> set q
      \<and> ((\<forall>i\<in>set q. place E b i = None) \<longrightarrow> b' = b \<and> k = length q - cnt)"
proof (induction "length q * length q + length q - cnt" arbitrary: b q cnt steps rule: less_induct)
  case less
  show ?case
  proof (cases "cnt = length q")
    case True
    with less.prems show ?thesis
      by (subst rollout.simps) simp
  next
    case False
    with less.prems(1) have lt: "cnt < length q" by simp
    then obtain i rest where q: "q = i # rest" by (cases q) auto
    from lt q have cr: "cnt \<le> length rest" by simp
    show ?thesis
    proof (cases "place E b i")
      case None
      have dropq: "drop (length q - cnt) q = drop (length rest - cnt) rest"
        using cr by (simp add: q Suc_diff_le)
      have inv: "\<forall>j\<in>set (drop (length (rest @ [i]) - (cnt + 1)) (rest @ [i])). place E b j = None"
        using less.prems(2) None cr by (simp add: dropq)
      have dec: "length (rest @ [i]) * length (rest @ [i]) + length (rest @ [i]) - (cnt + 1)
          < length q * length q + length q - cnt"
        using lt by (simp add: q)
      have c1: "cnt + 1 \<le> length (rest @ [i])" using cr by simp
      from less.hyps [OF dec c1 inv, of "steps + 1"] obtain b' q' k where
        r: "rollout E b (rest @ [i]) (cnt + 1) (steps + 1) = Some (b', q', steps + 1 + k)"
        and k: "k \<le> length (rest @ [i]) * length (rest @ [i]) + length (rest @ [i]) - (cnt + 1)"
        and ill: "\<forall>i\<in>set q'. place E b' i = None"
        and sub: "set q' \<subseteq> set (rest @ [i])"
        and none: "(\<forall>j\<in>set (rest @ [i]). place E b j = None) \<longrightarrow> b' = b \<and> k = length (rest @ [i]) - (cnt + 1)"
        by blast
      have "rollout E b q cnt steps = Some (b', q', steps + (k + 1))"
        using r False None by (subst rollout.simps) (simp add: q)
      moreover have "k + 1 \<le> length q * length q + length q - cnt"
        using k lt by (simp add: q)
      moreover have "set q' \<subseteq> set q" using sub by (auto simp: q)
      moreover have "(\<forall>j\<in>set q. place E b j = None) \<longrightarrow> b' = b \<and> k + 1 = length q - cnt"
        using none lt by (auto simp: q)
      ultimately show ?thesis using ill by blast
    next
      case (Some b1)
      have dec: "length rest * length rest + length rest - 0 < length q * length q + length q - cnt"
        using lt by (simp add: q)
      from less.hyps [OF dec, of b1 "steps + 1"] obtain b' q' k where
        r: "rollout E b1 rest 0 (steps + 1) = Some (b', q', steps + 1 + k)"
        and k: "k \<le> length rest * length rest + length rest - 0"
        and ill: "\<forall>i\<in>set q'. place E b' i = None"
        and sub: "set q' \<subseteq> set rest"
        by auto
      have "rollout E b q cnt steps = Some (b', q', steps + (k + 1))"
        using r False Some by (subst rollout.simps) (simp add: q)
      moreover have "k + 1 \<le> length q * length q + length q - cnt"
        using k lt by (simp add: q)
      moreover have "set q' \<subseteq> set q" using sub by (auto simp: q)
      moreover have "(\<forall>j\<in>set q. place E b j = None) \<longrightarrow> b' = b \<and> k + 1 = length q - cnt"
        using Some by (auto simp: q)
      ultimately show ?thesis using ill by blast
    qed
  qed
qed




subsection \<open>Trees stay well formed\<close>

lemma tree_ok_iff:
  "tree_ok n \<longleftrightarrow>
     \<bar>win_cnt n\<bar> \<le> total_cnt n \<and> distinct (map fst (child n))
     \<and> sum_list (map (\<lambda>e. total_cnt (snd e)) (child n)) \<le> total_cnt n
     \<and> (\<forall>e\<in>set (child n). tree_ok (snd e))"
  by (cases n) simp

declare tree_ok.simps [simp del]

lemma tree_ok_child: "tree_ok n \<Longrightarrow> (k, c) \<in> set (child n) \<Longrightarrow> tree_ok c"
  by (subst (asm) tree_ok_iff) auto

lemma tree_ok_total_nonneg: "tree_ok n \<Longrightarrow> 0 \<le> total_cnt n"
  by (subst (asm) tree_ok_iff) linarith

lemma tree_ok_map_of:
  "tree_ok n \<Longrightarrow> (k, c) \<in> set (child n) \<Longrightarrow> map_of (child n) k = Some c"
  by (subst (asm) tree_ok_iff) simp

lemma win_rate_lower: "\<bar>win_cnt n\<bar> \<le> total_cnt n \<Longrightarrow> - 1 \<le> win_rate n"
proof -
  assume a: "\<bar>win_cnt n\<bar> \<le> total_cnt n"
  show ?thesis
  proof (cases "total_cnt n = 0")
    case True
    then show ?thesis by (simp add: win_rate_def)
  next
    case False
    with a have pos: "0 < real_of_int (total_cnt n)" by simp
    from a have "- real_of_int (total_cnt n) \<le> real_of_int (win_cnt n)" by linarith
    then have "- 1 \<le> real_of_int (win_cnt n) / real_of_int (total_cnt n)"
      using pos by (simp add: pos_le_divide_eq)
    with False show ?thesis by (simp add: win_rate_def)
  qed
qed

lemma ucb_lower:
  assumes "\<bar>win_cnt n\<bar> \<le> total_cnt n" "0 \<le> c" "0 \<le> pt"
  shows "- 1 \<le> ucb pt n c"
proof (cases "pt = 0 \<or> total_cnt n = 0")
  case True
  then show ?thesis using win_rate_lower [OF assms(1)] by (simp add: ucb_def)
next
  case False
  with assms have "1 \<le> real_of_int pt" "0 < real_of_int (total_cnt n)" by auto
  then have "0 \<le> ln (real_of_int pt) / real_of_int (total_cnt n)" by simp
  then have "0 \<le> c * sqrt (ln (real_of_int pt) / real_of_int (total_cnt n))"
    using assms(2) by simp
  with win_rate_lower [OF assms(1)] False show ?thesis by (simp add: ucb_def)
qed

lemma FLT_MAX_gt_1: "1 < FLT_MAX"
proof -
  have "(1::real) \<le> 2 - 1 / 2 ^ 23" by simp
  moreover have "(1::real) < 2 ^ 127" by simp
  ultimately have "1 * 1 < (2 - 1 / 2 ^ 23) * (2 ^ 127 :: real)"
    by (intro mult_le_less_imp_less) simp_all
  then show ?thesis by (simp add: FLT_MAX_def)
qed

lemma ucb_scan_range: "snd (ucb_scan ucb_c pt chs (m, c0)) \<in> insert c0 (Some ` set chs)"
proof (induction chs arbitrary: m c0)
  case Nil
  show ?case by simp
next
  case (Cons e chs)
  obtain k' ch where e: "e = (k', ch)" by (cases e)
  show ?case
    using Cons [of "ucb pt ch ucb_c" "Some (k', ch)"] Cons [of m c0]
    by (auto simp: e Let_def)
qed

lemma ucb_scan_some:
  "\<exists>e\<in>set chs. m < ucb pt (snd e) ucb_c \<Longrightarrow>
   \<exists>x\<in>set chs. snd (ucb_scan ucb_c pt chs (m, c0)) = Some x"
proof (induction chs arbitrary: m c0)
  case Nil
  then show ?case by simp
next
  case (Cons e chs)
  obtain k' ch where e: "e = (k', ch)" by (cases e)
  show ?case
  proof (cases "m < ucb pt ch ucb_c")
    case True
    from ucb_scan_range [of ucb_c pt chs "ucb pt ch ucb_c" "Some (k', ch)"]
    show ?thesis using True by (auto simp: e)
  next
    case False
    with Cons.prems have "\<exists>e\<in>set chs. m < ucb pt (snd e) ucb_c" by (auto simp: e)
    from Cons.IH [OF this, of c0] show ?thesis using False by (auto simp: e)
  qed
qed

lemma select_ok:
  "tree_ok t \<Longrightarrow> 0 \<le> ucb_c \<Longrightarrow>
   \<exists>path leaf. select_root_to_leaf E ucb_c t = Some path \<and> node_at path t = Some leaf"
proof (induction E ucb_c t rule: select_root_to_leaf.induct)
  case (1 E ucb_c cur)
  show ?case
  proof (cases "is_leaf E cur \<or> length (child cur) = 0")
    case True
    then show ?thesis by (subst select_root_to_leaf.simps) auto
  next
    case False
    then obtain e0 where e0: "e0 \<in> set (child cur)" by (cases "child cur") auto
    have pt: "0 \<le> total_cnt cur" using "1.prems"(1) by (rule tree_ok_total_nonneg)
    have "\<forall>e\<in>set (child cur). - FLT_MAX < ucb (total_cnt cur) (snd e) ucb_c"
    proof
      fix e assume e: "e \<in> set (child cur)"
      then have "tree_ok (snd e)" using "1.prems"(1) tree_ok_child [of cur "fst e" "snd e"] by simp
      then have "\<bar>win_cnt (snd e)\<bar> \<le> total_cnt (snd e)" by (subst (asm) tree_ok_iff) simp
      from ucb_lower [OF this "1.prems"(2) pt] FLT_MAX_gt_1
      show "- FLT_MAX < ucb (total_cnt cur) (snd e) ucb_c" by linarith
    qed
    with e0 have "\<exists>e\<in>set (child cur). - FLT_MAX < ucb (total_cnt cur) (snd e) ucb_c" by blast
    from ucb_scan_some [OF this, of None] obtain k c where
      mem: "(k, c) \<in> set (child cur)" and
      sc: "snd (ucb_scan ucb_c (total_cnt cur) (child cur) (- FLT_MAX, None)) = Some (k, c)"
      by auto
    have okc: "tree_ok c" using "1.prems"(1) mem by (rule tree_ok_child)
    from False have nl: "\<not> is_leaf E cur" "length (child cur) \<noteq> 0" by auto
    from "1.IH" [OF nl sc refl okc "1.prems"(2)] obtain path leaf where
      p: "select_root_to_leaf E ucb_c c = Some path" "node_at path c = Some leaf" by blast
    have "select_root_to_leaf E ucb_c cur = Some (k # path)"
      using nl sc p(1) by (subst select_root_to_leaf.simps) simp
    moreover have "node_at (k # path) cur = Some leaf"
      using tree_ok_map_of [OF "1.prems"(1) mem] p(2) by simp
    ultimately show ?thesis by blast
  qed
qed

lemma node_at_tree_ok: "tree_ok t \<Longrightarrow> node_at p t = Some n \<Longrightarrow> tree_ok n"
proof (induction p arbitrary: t)
  case Nil
  then show ?case by simp
next
  case (Cons k ks)
  from Cons.prems(2) obtain c where c: "map_of (child t) k = Some c" "node_at ks c = Some n"
    by (auto split: option.splits)
  from c(1) have "(k, c) \<in> set (child t)" by (rule map_of_SomeD)
  with Cons.prems(1) have "tree_ok c" by (rule tree_ok_child)
  from Cons.IH [OF this c(2)] show ?case .
qed

lemma node_at_append:
  "node_at (p @ q) t = (case node_at p t of None \<Rightarrow> None | Some n \<Rightarrow> node_at q n)"
  by (induction p arbitrary: t) (auto split: option.splits)

lemma map_fst_map_child: "map fst (map_child k f chs) = map fst chs"
  by (induction chs) (auto simp: map_child_def)

lemma map_of_map_child:
  "map_of (map_child k f chs) k' = (if k' = k then map_option f (map_of chs k) else map_of chs k')"
  by (induction chs) (auto simp: map_child_def)

lemma set_map_child:
  "distinct (map fst chs) \<Longrightarrow> (k, c) \<in> set chs \<Longrightarrow>
   set (map_child k f chs) = insert (k, f c) (set chs - {(k, c)})"
proof (induction chs)
  case Nil
  then show ?case by simp
next
  case (Cons e chs)
  obtain k' c' where e: "e = (k', c')" by (cases e)
  show ?case
  proof (cases "k' = k")
    case True
    with Cons.prems e have cc: "c' = c" and notin: "k \<notin> fst ` set chs"
      by (auto simp: image_iff)
    from notin have "map_child k f chs = chs"
      by (induction chs) (auto simp: map_child_def)
    moreover from notin have "(k, c) \<notin> set chs" by (auto simp: image_iff)
    ultimately show ?thesis using True cc e by (auto simp: map_child_def)
  next
    case False
    with Cons.prems e have mem: "(k, c) \<in> set chs" and d: "distinct (map fst chs)" by auto
    from Cons.IH [OF d mem] False e show ?thesis
      by (auto simp: map_child_def)
  qed
qed

lemma sum_map_child:
  "distinct (map fst chs) \<Longrightarrow> (k, c) \<in> set chs \<Longrightarrow>
   sum_list (map (\<lambda>e. total_cnt (snd e)) (map_child k f chs))
     = sum_list (map (\<lambda>e. total_cnt (snd e)) chs) - total_cnt c + total_cnt (f c)"
proof (induction chs)
  case Nil
  then show ?case by simp
next
  case (Cons e chs)
  obtain k' c' where e: "e = (k', c')" by (cases e)
  show ?case
  proof (cases "k' = k")
    case True
    with Cons.prems e have cc: "c' = c" and notin: "k \<notin> fst ` set chs"
      by (auto simp: image_iff)
    from notin have "map_child k f chs = chs"
      by (induction chs) (auto simp: map_child_def)
    then show ?thesis using True cc e by (simp add: map_child_def)
  next
    case False
    with Cons.prems e have mem: "(k, c) \<in> set chs" and d: "distinct (map fst chs)" by auto
    from Cons.IH [OF d mem] False e show ?thesis
      by (simp add: map_child_def)
  qed
qed

lemma tree_ok_map_child:
  assumes ok: "tree_ok t" and mem: "(k, c) \<in> set (child t)"
    and fc: "tree_ok (f c)" and w: "\<bar>w\<bar> \<le> tc"
    and s: "sum_list (map (\<lambda>e. total_cnt (snd e)) (child t)) - total_cnt c + total_cnt (f c) \<le> tc"
  shows "tree_ok (Node b w tc p (map_child k f (child t)))"
proof -
  from ok have d: "distinct (map fst (child t))" and chs: "\<forall>e\<in>set (child t). tree_ok (snd e)"
    by (subst (asm) tree_ok_iff, simp)+
  have "\<forall>e\<in>set (map_child k f (child t)). tree_ok (snd e)"
    unfolding set_map_child [OF d mem] using chs fc by auto
  then show ?thesis
    using w s d by (simp add: tree_ok.simps map_fst_map_child sum_map_child [OF d mem])
qed

lemma update_at_ok:
  "node_at p t = Some leaf \<Longrightarrow> tree_ok t \<Longrightarrow> tree_ok leaf' \<Longrightarrow> total_cnt leaf' = total_cnt leaf \<Longrightarrow>
   tree_ok (update_at p (\<lambda>_. leaf') t) \<and> total_cnt (update_at p (\<lambda>_. leaf') t) = total_cnt t
   \<and> node_at p (update_at p (\<lambda>_. leaf') t) = Some leaf'"
proof (induction p arbitrary: t)
  case Nil
  then show ?case by simp
next
  case (Cons k ks)
  from Cons.prems(1) obtain c where c: "map_of (child t) k = Some c" "node_at ks c = Some leaf"
    by (auto split: option.splits)
  from c(1) have mem: "(k, c) \<in> set (child t)" by (rule map_of_SomeD)
  with Cons.prems(2) have okc: "tree_ok c" by (rule tree_ok_child)
  from Cons.IH [OF c(2) okc Cons.prems(3,4)]
  have ih: "tree_ok (update_at ks (\<lambda>_. leaf') c)"
    "total_cnt (update_at ks (\<lambda>_. leaf') c) = total_cnt c"
    "node_at ks (update_at ks (\<lambda>_. leaf') c) = Some leaf'" by auto
  from Cons.prems(2) have loc: "\<bar>win_cnt t\<bar> \<le> total_cnt t"
    "sum_list (map (\<lambda>e. total_cnt (snd e)) (child t)) \<le> total_cnt t"
    by (subst (asm) tree_ok_iff, simp)+
  have "tree_ok (update_at (k # ks) (\<lambda>_. leaf') t)"
    using tree_ok_map_child [where f = "update_at ks (\<lambda>_. leaf')" and c = c and b = "brd t"
        and p = "place_pos t", OF Cons.prems(2) mem ih(1) loc(1)]
      loc(2) ih(2) by simp
  moreover have "node_at (k # ks) (update_at (k # ks) (\<lambda>_. leaf') t) = Some leaf'"
    using c(1) ih(3) by (simp add: map_of_map_child)
  ultimately show ?case by simp
qed

lemma total_cnt_back_propagate: "total_cnt (back_propagate E p w t) = total_cnt t + 1"
  by (cases p) (simp_all add: visit_def)

lemma back_propagate_ok:
  "tree_ok t \<Longrightarrow> node_at p t = Some x \<Longrightarrow> tree_ok (back_propagate E p w t)"
proof (induction p arbitrary: t)
  case Nil
  from Nil.prems(1) have loc: "\<bar>win_cnt t\<bar> \<le> total_cnt t" "distinct (map fst (child t))"
    "sum_list (map (\<lambda>e. total_cnt (snd e)) (child t)) \<le> total_cnt t"
    "\<forall>e\<in>set (child t). tree_ok (snd e)"
    by (subst (asm) tree_ok_iff, simp)+
  then show ?case by (auto simp add: visit_def tree_ok.simps)
next
  case (Cons k ks)
  from Cons.prems(2) obtain c where c: "map_of (child t) k = Some c" "node_at ks c = Some x"
    by (auto split: option.splits)
  from c(1) have mem: "(k, c) \<in> set (child t)" by (rule map_of_SomeD)
  with Cons.prems(1) have okc: "tree_ok c" by (rule tree_ok_child)
  note ih = Cons.IH [OF okc c(2)]
  from Cons.prems(1) have loc: "\<bar>win_cnt t\<bar> \<le> total_cnt t"
    "sum_list (map (\<lambda>e. total_cnt (snd e)) (child t)) \<le> total_cnt t"
    by (subst (asm) tree_ok_iff, simp)+
  have w: "\<bar>if w \<noteq> who_take_turns E (brd t) then win_cnt t + 1 else win_cnt t - 1\<bar> \<le> total_cnt t + 1"
    using loc(1) by auto
  have s: "sum_list (map (\<lambda>e. total_cnt (snd e)) (child t)) - total_cnt c
      + total_cnt (back_propagate E ks w c) \<le> total_cnt t + 1"
    using loc(2) by (simp add: total_cnt_back_propagate)
  show ?case
    using tree_ok_map_child [where f = "back_propagate E ks w" and c = c and b = "brd t"
        and p = "place_pos t", OF Cons.prems(1) mem ih w s] by simp
qed

lemma first_free_Some:
  "first_free E n vec = Some (p, b) \<Longrightarrow> p \<notin> set (map fst (child n)) \<and> place E (brd n) p = Some b"
  by (induction vec) (auto split: option.splits if_splits)

lemma tree_ok_new_node: "tree_ok (new_node b m)"
  by (simp add: new_node_def tree_ok.simps)

lemma expand_ok:
  assumes "tree_ok leaf" "expand_from_leaf E g leaf = ((leaf', ex), g')"
  shows "tree_ok leaf' \<and> total_cnt leaf' = total_cnt leaf
    \<and> (\<forall>pos. ex = Some pos \<longrightarrow> (\<exists>c. map_of (child leaf') pos = Some c))"
proof -
  obtain vec g1 where as: "all_space E g = (vec, g1)" by (cases "all_space E g")
  show ?thesis
  proof (cases "first_free E leaf vec")
    case None
    with assms as show ?thesis by (simp add: expand_from_leaf_def)
  next
    case (Some pb)
    obtain pos b where pb: "pb = (pos, b)" by (cases pb)
    from Some pb first_free_Some [of E leaf vec pos b]
    have fresh: "pos \<notin> set (map fst (child leaf))" by simp
    from assms(2) as Some pb have
      l': "leaf' = Node (brd leaf) (win_cnt leaf) (total_cnt leaf) (place_pos leaf)
                     (child leaf @ [(pos, new_node b (int pos))])" and ex: "ex = Some pos"
      by (simp_all add: expand_from_leaf_def)
    from assms(1) have loc: "\<bar>win_cnt leaf\<bar> \<le> total_cnt leaf" "distinct (map fst (child leaf))"
      "sum_list (map (\<lambda>e. total_cnt (snd e)) (child leaf)) \<le> total_cnt leaf"
      "\<forall>e\<in>set (child leaf). tree_ok (snd e)"
      by (subst (asm) tree_ok_iff, simp)+
    have "tree_ok leaf'"
      using loc fresh by (simp add: l' tree_ok.simps tree_ok_new_node) (simp add: new_node_def)
    moreover have "map_of (child leaf') pos = Some (new_node b (int pos))"
      using fresh by (simp add: l' map_of_eq_None_iff [THEN iffD2] map_add_Some_iff image_iff)
    ultimately show ?thesis by (simp add: l' ex)
  qed
qed

lemma simulate_winner_total: "\<exists>w g'. simulate_winner E g n = Some (w, g')"
proof -
  obtain vec g1 where as: "all_space E g = (vec, g1)" by (cases "all_space E g")
  from rollout_run [of 0 vec E "brd n" 0] obtain b' q' k where
    "rollout E (brd n) vec 0 0 = Some (b', q', k)" by auto
  with as show ?thesis by (simp add: simulate_winner_def)
qed

lemma cycle_ok:
  assumes ok: "tree_ok t" and c: "0 \<le> ucb_c"
  shows "\<exists>t' g'. cycle E ucb_c t g = Some (t', g') \<and> tree_ok t' \<and> total_cnt t' = total_cnt t + 1"
proof -
  from select_ok [OF ok c] obtain path leaf where
    sel: "select_root_to_leaf E ucb_c t = Some path" and at: "node_at path t = Some leaf" by blast
  from node_at_tree_ok [OF ok at] have okl: "tree_ok leaf" .
  obtain leaf' ex g1 where exp: "expand_from_leaf E g leaf = ((leaf', ex), g1)"
    by (metis surj_pair)
  from expand_ok [OF okl exp] have e: "tree_ok leaf'" "total_cnt leaf' = total_cnt leaf"
    "\<forall>pos. ex = Some pos \<longrightarrow> (\<exists>c. map_of (child leaf') pos = Some c)" by auto
  define tree1 where "tree1 = update_at path (\<lambda>_. leaf') t"
  define path1 where "path1 = (case ex of None \<Rightarrow> path | Some pos \<Rightarrow> path @ [pos])"
  from update_at_ok [OF at ok e(1,2)] have u: "tree_ok tree1" "total_cnt tree1 = total_cnt t"
    "node_at path tree1 = Some leaf'" by (simp_all add: tree1_def)
  have "\<exists>n. node_at path1 tree1 = Some n"
  proof (cases ex)
    case None
    with u(3) show ?thesis by (simp add: path1_def)
  next
    case (Some pos)
    with e(3) obtain c where "map_of (child leaf') pos = Some c" by blast
    with Some u(3) show ?thesis by (simp add: path1_def node_at_append)
  qed
  then obtain bk where bk: "node_at path1 tree1 = Some bk" ..
  from simulate_winner_total [of E g1 bk] obtain w g2 where sim: "simulate_winner E g1 bk = Some (w, g2)"
    by blast
  have "cycle E ucb_c t g = Some (back_propagate E path1 w tree1, g2)"
    using sel at exp bk sim by (simp add: cycle_def tree1_def path1_def)
  moreover have "tree_ok (back_propagate E path1 w tree1)"
    using u(1) bk by (rule back_propagate_ok)
  moreover have "total_cnt (back_propagate E path1 w tree1) = total_cnt t + 1"
    by (simp add: total_cnt_back_propagate u(2))
  ultimately show ?thesis by blast
qed

lemma MCTS_loop_ok:
  "tree_ok t \<Longrightarrow> 0 \<le> ucb_c \<Longrightarrow>
   \<exists>t' g'. MCTS_loop E ucb_c n t g = Some (t', g') \<and> tree_ok t' \<and> total_cnt t' = total_cnt t + int n"
proof (induction n arbitrary: t g)
  case 0
  then show ?case by simp
next
  case (Suc n)
  from cycle_ok [OF Suc.prems, of E g] obtain t1 g1 where
    c: "cycle E ucb_c t g = Some (t1, g1)" "tree_ok t1" "total_cnt t1 = total_cnt t + 1" by blast
  from Suc.IH [OF c(2) Suc.prems(2), of g1] obtain t' g' where
    "MCTS_loop E ucb_c n t1 g1 = Some (t', g')" "tree_ok t'" "total_cnt t' = total_cnt t1 + int n"
    by blast
  with c show ?case by simp
qed

subsection \<open>The claims about one tree\<close>




lemma cycle_keeps:
  assumes "cycle E ucb_c t g = Some (t', g')" "tree_ok t"
  shows "tree_ok t' \<and> total_cnt t' = total_cnt t + 1"
proof -
  from assms(1) obtain path leaf where
    sel: "select_root_to_leaf E ucb_c t = Some path" and at: "node_at path t = Some leaf"
    by (auto simp: cycle_def split: option.splits)
  from node_at_tree_ok [OF assms(2) at] have okl: "tree_ok leaf" .
  obtain leaf' ex g1 where exp: "expand_from_leaf E g leaf = ((leaf', ex), g1)"
    by (metis surj_pair)
  from expand_ok [OF okl exp] have e: "tree_ok leaf'" "total_cnt leaf' = total_cnt leaf"
    by auto
  define tree1 where "tree1 = update_at path (\<lambda>_. leaf') t"
  define path1 where "path1 = (case ex of None \<Rightarrow> path | Some pos \<Rightarrow> path @ [pos])"
  from update_at_ok [OF at assms(2) e] have u: "tree_ok tree1" "total_cnt tree1 = total_cnt t"
    by (simp_all add: tree1_def)
  from assms(1) sel at exp obtain bk w where bk: "node_at path1 tree1 = Some bk"
    and t': "t' = back_propagate E path1 w tree1"
    by (auto simp: cycle_def tree1_def path1_def Let_def split: option.splits)
  from back_propagate_ok [OF u(1) bk, of E w] total_cnt_back_propagate [of E path1 w tree1] u(2)
  show ?thesis by (simp add: t')
qed

lemma MCTS_loop_keeps:
  "MCTS_loop E ucb_c n t g = Some (t', g') \<Longrightarrow> tree_ok t \<Longrightarrow>
   tree_ok t' \<and> total_cnt t' = total_cnt t + int n"
proof (induction n arbitrary: t g)
  case 0
  then show ?case by simp
next
  case (Suc n)
  from Suc.prems(1) obtain t1 g1 where
    c1: "cycle E ucb_c t g = Some (t1, g1)" and l: "MCTS_loop E ucb_c n t1 g1 = Some (t', g')"
    by (auto split: option.splits)
  from cycle_keeps [OF c1 Suc.prems(2)] have k: "tree_ok t1" "total_cnt t1 = total_cnt t + 1"
    by simp_all
  from Suc.IH [OF l k(1)] k(2) show ?case by simp
qed

text \<open>
  C5. Whenever \<open>n\<close> cycles of select, expand, simulate and back propagate from a
  fresh root return, the visit count of the root is \<open>n\<close> and at every node of the
  tree the visit counts of the children add up to at most the visit count of the
  node. For \<open>0 \<le> ucb_c\<close> they do return: every score then stays above \<open>- FLT_MAX\<close>, so
  that selection always finds a child.
\<close>

theorem visit_conservation:
  "(MCTS_loop E ucb_c n (new_node state m) g = Some (t, g') \<longrightarrow>
      total_cnt t = int n
      \<and> (\<forall>p x. node_at p t = Some x \<longrightarrow>
            sum_list (map (\<lambda>e. total_cnt (snd e)) (child x)) \<le> total_cnt x))
   \<and> (0 \<le> ucb_c \<longrightarrow> (\<exists>t g'. MCTS_loop E ucb_c n (new_node state m) g = Some (t, g')))"
proof -
  have a: "total_cnt t = int n
      \<and> (\<forall>p x. node_at p t = Some x \<longrightarrow>
            sum_list (map (\<lambda>e. total_cnt (snd e)) (child x)) \<le> total_cnt x)"
    if r: "MCTS_loop E ucb_c n (new_node state m) g = Some (t, g')"
  proof -
    from MCTS_loop_keeps [OF r tree_ok_new_node] have k: "tree_ok t"
      "total_cnt t = total_cnt (new_node state m) + int n" by simp_all
    have "sum_list (map (\<lambda>e. total_cnt (snd e)) (child x)) \<le> total_cnt x"
      if "node_at p t = Some x" for p x
    proof -
      from node_at_tree_ok [OF k(1) that] show ?thesis
        by (subst (asm) tree_ok_iff) simp
    qed
    with k(2) show ?thesis by (auto simp: new_node_def)
  qed
  have b: "\<exists>t g'. MCTS_loop E ucb_c n (new_node state m) g = Some (t, g')" if "0 \<le> ucb_c"
    using MCTS_loop_ok [OF tree_ok_new_node that, of E n state m g] by blast
  from a b show ?thesis by blast
qed

theorem visit_conservation_witness:
  "\<exists>t g'. MCTS_loop toy 1 5 (new_node ([0, 2, 4], Black) (- 1)) 0 = Some (t, g')
     \<and> total_cnt t = 5
     \<and> sum_list (map (\<lambda>e. total_cnt (snd e)) (child t)) \<le> total_cnt t"
proof -
  have c: "(0 :: real) \<le> 1" by simp
  from visit_conservation [of toy 1 5 "([0, 2, 4], Black)" "- 1" 0] c obtain t g' where
    r: "MCTS_loop toy 1 5 (new_node ([0, 2, 4], Black) (- 1)) 0 = Some (t, g')" by blast
  from visit_conservation [of toy 1 5 "([0, 2, 4], Black)" "- 1" 0 t g'] r
  have "total_cnt t = 5"
    "\<forall>p x. node_at p t = Some x \<longrightarrow>
           sum_list (map (\<lambda>e. total_cnt (snd e)) (child x)) \<le> total_cnt x" by simp_all
  moreover from this(2) have "sum_list (map (\<lambda>e. total_cnt (snd e)) (child t)) \<le> total_cnt t"
    by (metis node_at.simps(1))
  ultimately show ?thesis using r by blast
qed

text \<open>
  C4. \<open>back_propagate\<close> adds \<open>1\<close> to \<open>total_cnt\<close> of every node on the path (the nodes
  reached by the first \<open>j\<close> keys, for every \<open>j\<close> up to the length of the path), and at
  each of them adds \<open>1\<close> to \<open>win_cnt\<close> if the winner is not the player to move on the
  board of that node, and subtracts \<open>1\<close> otherwise.
\<close>

theorem back_propagate_counts:
  assumes "node_at path t = Some leaf" and "j \<le> length path"
  shows "\<exists>x x'. node_at (take j path) t = Some x
     \<and> node_at (take j path) (back_propagate E path winner t) = Some x'
     \<and> total_cnt x' = total_cnt x + 1
     \<and> win_cnt x' = (if winner \<noteq> who_take_turns E (brd x) then win_cnt x + 1 else win_cnt x - 1)"
  using assms
proof (induction path arbitrary: t j)
  case Nil
  then show ?case by (simp add: visit_def)
next
  case (Cons k ks)
  show ?case
  proof (cases j)
    case 0
    then show ?thesis by simp
  next
    case (Suc j')
    from Cons.prems(1) obtain c where c: "map_of (child t) k = Some c" "node_at ks c = Some leaf"
      by (auto split: option.splits)
    from Cons.prems(2) Suc have j': "j' \<le> length ks" by simp
    from Cons.IH [OF c(2) j'] show ?thesis
      using c(1) Suc by (simp add: map_of_map_child)
  qed
qed

theorem back_propagate_counts_witness:
  "\<exists>x'. node_at [0] (back_propagate toy [0] White
       (Node ([0, 1], Black) 0 1 (- 1) [(0, Node ([1], White) 1 1 0 [])])) = Some x'
     \<and> total_cnt x' = 2 \<and> win_cnt x' = 0"
proof -
  have a: "node_at [0] (Node ([0, 1], Black) 0 1 (- 1) [(0, Node ([1], White) 1 1 0 [])])
      = Some (Node ([1], White) 1 1 0 [])" by simp
  have b: "(1 :: nat) \<le> length [0 :: nat]" by simp
  from back_propagate_counts [OF a b, of toy White] show ?thesis
    by (simp add: toy_def)
qed













lemma is_leaf_toy:
  "is_leaf toy n \<longleftrightarrow>
     \<not> (0 < length (filter (\<lambda>i. i \<in> set (fst (brd n))) [0..<81])
        \<and> length (child n) = length (filter (\<lambda>i. i \<in> set (fst (brd n))) [0..<81]))"
  by (simp add: is_leaf_def toy_def toy_place_def Let_def)










subsection \<open>The search of every worker returns\<close>

lemma visit_scan_keeps: "snd (visit_scan chs (m, Some x)) \<noteq> None"
proof (induction chs arbitrary: m x)
  case Nil
  show ?case by simp
next
  case (Cons e chs)
  obtain k ch where e: "e = (k, ch)" by (cases e)
  show ?case using Cons [of "total_cnt ch" ch] Cons [of m x] by (simp add: e Let_def)
qed

lemma visit_scan_some:
  "\<exists>e\<in>set chs. m < total_cnt (snd e) \<Longrightarrow> snd (visit_scan chs (m, c0)) \<noteq> None"
proof (induction chs arbitrary: m c0)
  case Nil
  then show ?case by simp
next
  case (Cons e chs)
  obtain k ch where e: "e = (k, ch)" by (cases e)
  show ?case
  proof (cases "m < total_cnt ch")
    case True
    then show ?thesis using visit_scan_keeps [of chs "total_cnt ch" ch] by (simp add: e)
  next
    case False
    with Cons.prems have "\<exists>e\<in>set chs. m < total_cnt (snd e)" by (auto simp: e)
    from Cons.IH [OF this, of c0] False show ?thesis by (simp add: e)
  qed
qed

lemma select_action_total: "tree_ok t \<Longrightarrow> \<exists>a. select_action t = Some a"
proof (cases "child t")
  case Nil
  then show ?thesis by (simp add: select_action_def)
next
  case (Cons e chs)
  assume ok: "tree_ok t"
  from Cons have mem: "(fst e, snd e) \<in> set (child t)" by simp
  from tree_ok_total_nonneg [OF tree_ok_child [OF ok mem]]
  have "- INT_MAX < total_cnt (snd e)" by (simp add: INT_MAX_def)
  with Cons have "\<exists>e\<in>set (child t). - INT_MAX < total_cnt (snd e)" by auto
  from visit_scan_some [OF this, of None] Cons show ?thesis
    by (auto simp: select_action_def)
qed

lemma MCTS_ok:
  assumes "tree_ok t" "0 \<le> ucb_c"
  shows "\<exists>a t' g'. MCTS E N g ucb_c t = Some (a, t', g') \<and> tree_ok t'
     \<and> total_cnt t' = total_cnt t + int (nat N)"
proof -
  from MCTS_loop_ok [OF assms, of E "nat N" g] obtain t' g' where
    l: "MCTS_loop E ucb_c (nat N) t g = Some (t', g')" "tree_ok t'"
      "total_cnt t' = total_cnt t + int (nat N)" by blast
  from select_action_total [OF l(2)] obtain a where "select_action t' = Some a" ..
  with l show ?thesis by (simp add: MCTS_def)
qed

lemma omp_parallel_ids_upt:
  assumes step: "\<And>j s. j < W \<Longrightarrow> J j s \<Longrightarrow> \<exists>s'. block j s = Some s' \<and> J (Suc j) s'"
  shows "i \<le> W \<Longrightarrow> J i s \<Longrightarrow> \<exists>s'. omp_parallel_ids block [i..<W] s = Some s' \<and> J W s'"
proof (induction "W - i" arbitrary: i s)
  case 0
  then show ?case by simp
next
  case (Suc d)
  then have lt: "i < W" by simp
  from step [OF lt Suc.prems(2)] obtain s1 where s1: "block i s = Some s1" "J (Suc i) s1" by blast
  from Suc.hyps(2) have "d = W - Suc i" by simp
  from Suc.hyps(1) [OF this _ s1(2)] lt obtain s' where
    "omp_parallel_ids block [Suc i..<W] s1 = Some s'" "J W s'" by auto
  with s1(1) lt show ?case by (simp add: upt_conv_Cons)
qed

lemma omp_parallel_inv:
  assumes "\<And>j s. j < W \<Longrightarrow> J j s \<Longrightarrow> \<exists>s'. block j s = Some s' \<and> J (Suc j) s'" "J 0 s"
  shows "\<exists>s'. omp_parallel block W s = Some s' \<and> J W s'"
  unfolding omp_parallel_def
  using omp_parallel_ids_upt [where J = J and block = block and W = W and i = 0 and s = s] assms
  by blast

lemma workers_at_done: "workers_at W k W n s \<longleftrightarrow> workers_at W (k + n) 0 n' s"
  by (auto simp: workers_at_def)

lemma workers_at_start: "workers_at W k 0 n s \<longleftrightarrow> workers_at W k 0 n' s"
  by (auto simp: workers_at_def)

lemma first_pass_step:
  assumes "j < W" "workers_at W k j (int (nat (N sdiv 4))) s" "0 \<le> c"
  shows "\<exists>s'. first_pass E N c j s = Some s' \<and> workers_at W k (Suc j) (int (nat (N sdiv 4))) s'
     \<and> average_selection s' = average_selection s"
proof -
  from assms(1,2) have ok: "tree_ok (root_vec s ! j)" and tot: "total_cnt (root_vec s ! j) = k"
    and len: "length (root_vec s) = W"
    by (auto simp: workers_at_def)
  from MCTS_ok [OF ok assms(3), of E "N sdiv 4" "engine s"] obtain a t g where
    m: "MCTS E (N sdiv 4) (engine s) c (root_vec s ! j) = Some (a, t, g)" "tree_ok t"
      "total_cnt t = total_cnt (root_vec s ! j) + int (nat (N sdiv 4))" by blast
  have "workers_at W k (Suc j) (int (nat (N sdiv 4))) (s\<lparr>root_vec := (root_vec s)[j := t], engine := g\<rparr>)"
    using assms(1,2) m(2,3) tot
    by (auto simp: workers_at_def nth_list_update less_Suc_eq)
  with m(1) show ?thesis by (simp add: first_pass_def)
qed

lemma checkpoint_pass_step:
  assumes "j < W" "workers_at W k j (int (nat (N sdiv split))) s" "0 \<le> c"
  shows "\<exists>s'. checkpoint_pass E N split c j s = Some s'
     \<and> workers_at W k (Suc j) (int (nat (N sdiv split))) s'"
proof -
  from assms(1,2) have ok: "tree_ok (root_vec s ! j)" and tot: "total_cnt (root_vec s ! j) = k"
    and len: "length (root_vec s) = W"
    by (auto simp: workers_at_def)
  from MCTS_ok [OF ok assms(3), of E "N sdiv split" "engine s"] obtain a t g where
    m: "MCTS E (N sdiv split) (engine s) c (root_vec s ! j) = Some (a, t, g)" "tree_ok t"
      "total_cnt t = total_cnt (root_vec s ! j) + int (nat (N sdiv split))" by blast
  have "workers_at W k (Suc j) (int (nat (N sdiv split)))
      (s\<lparr>root_vec := (root_vec s)[j := t],
         average_selection :=
           (average_selection s)[j := record_children (child t) (average_selection s ! j)],
         engine := g\<rparr>)"
    using assms(1,2) m(2,3) tot
    by (auto simp: workers_at_def nth_list_update less_Suc_eq)
  with m(1) show ?thesis by (simp add: checkpoint_pass_def)
qed

lemma first_region:
  assumes "workers_at W k 0 x s" "0 \<le> c"
  shows "\<exists>s'. omp_parallel (first_pass E N c) W s = Some s'
     \<and> workers_at W (k + int (nat (N sdiv 4))) 0 x s'
     \<and> average_selection s' = average_selection s"
proof -
  let ?J = "\<lambda>j s'. workers_at W k j (int (nat (N sdiv 4))) s'
     \<and> average_selection s' = average_selection s"
  have step: "\<exists>s'. first_pass E N c j s1 = Some s' \<and> ?J (Suc j) s'" if "j < W" "?J j s1" for j s1
    using first_pass_step [OF that(1) _ assms(2), of k N s1 E] that(2) by auto
  have start: "?J 0 s" using assms(1) workers_at_start by blast
  from omp_parallel_inv [of W ?J "first_pass E N c" s, OF step start]
  show ?thesis using workers_at_done by blast
qed

lemma checkpoint_region:
  assumes "workers_at W k 0 x s" "0 \<le> c"
  shows "\<exists>s'. omp_parallel (checkpoint_pass E N split c) W s = Some s'
     \<and> workers_at W (k + int (nat (N sdiv split))) 0 x s'"
proof -
  let ?J = "\<lambda>j s'. workers_at W k j (int (nat (N sdiv split))) s'"
  have step: "\<exists>s'. checkpoint_pass E N split c j s1 = Some s' \<and> ?J (Suc j) s'"
    if "j < W" "?J j s1" for j s1
    using checkpoint_pass_step [OF that(1) _ assms(2), of k N split s1 E] that(2) by auto
  have start: "?J 0 s" using assms(1) workers_at_start by blast
  from omp_parallel_inv [of W ?J "checkpoint_pass E N split c" s, OF step start]
  show ?thesis using workers_at_done by blast
qed

lemma checkpoints_ok:
  "workers_at W k 0 x s \<Longrightarrow> 0 \<le> c \<Longrightarrow>
   \<exists>s' m. checkpoints E N c W split i s = Some s'
     \<and> workers_at W (k + int m * int (nat (N sdiv split))) 0 x s'
     \<and> (i \<le> split \<longrightarrow> 1 \<le> m) \<and> int m \<le> max 0 (split + 1 - i)
     \<and> (split < i \<longrightarrow> s' = s)"
proof (induction E N c W split i s arbitrary: k rule: checkpoints.induct)
  case (1 E N c W split i s)
  show ?case
  proof (cases "i \<le> split")
    case False
    then have "checkpoints E N c W split i s = Some s"
      by (subst checkpoints.simps) simp
    with "1.prems"(1) False show ?thesis
      by (intro exI [of _ s] exI [of _ 0]) simp
  next
    case True
    from checkpoint_region [OF "1.prems", of E N split] obtain s1 where
      r: "omp_parallel (checkpoint_pass E N split c) W s = Some s1"
        "workers_at W (k + int (nat (N sdiv split))) 0 x s1" by blast
    show ?thesis
    proof (cases "early_exit N (int W) split i (sum_result W (average_selection s1))")
      case ex: True
      have "checkpoints E N c W split i s = Some s1"
        using True r(1) ex by (subst checkpoints.simps) simp
      with r(2) True show ?thesis
        by (intro exI [of _ s1] exI [of _ 1]) simp
    next
      case ex: False
      from "1.IH" [OF True r(1) ex r(2) "1.prems"(2)] obtain s' m where
        ih: "checkpoints E N c W split (i + 1) s1 = Some s'"
          "workers_at W (k + int (nat (N sdiv split)) + int m * int (nat (N sdiv split))) 0 x s'"
          "int m \<le> max 0 (split + 1 - (i + 1))" by blast
      have "checkpoints E N c W split i s = Some s'"
        using True r(1) ex ih(1) by (subst checkpoints.simps) simp
      moreover have eq: "k + int (nat (N sdiv split)) + int m * int (nat (N sdiv split))
          = k + int (Suc m) * int (nat (N sdiv split))"
        by (simp add: algebra_simps)
      from ih(2) have "workers_at W (k + int (Suc m) * int (nat (N sdiv split))) 0 x s'"
        by (simp only: eq)
      moreover have "int (Suc m) \<le> max 0 (split + 1 - i)" "1 \<le> Suc m"
        using ih(3) True by auto
      moreover have "\<not> split < i" using True by simp
      ultimately show ?thesis
        by (intro exI [of _ s'] exI [of _ "Suc m"]) blast
    qed
  qed
qed

lemma search_ok:
  assumes "0 \<le> c"
  shows "\<exists>s m. search E N c W state g = Some s
     \<and> workers_at W (int (nat (N sdiv 4)) + int m * int (nat (N sdiv (N sdiv 1000)))) 0 0 s
     \<and> (N sdiv 1000 sdiv 4 + 1 \<le> N sdiv 1000 \<longrightarrow> 1 \<le> m)
     \<and> int m \<le> max 0 (N sdiv 1000 - N sdiv 1000 sdiv 4)
     \<and> (N sdiv 1000 < N sdiv 1000 sdiv 4 + 1 \<longrightarrow>
          average_selection s = replicate W (replicate 81 0))"
proof -
  let ?s0 = "\<lparr>root_vec = replicate W (new_node state (- 1)),
              average_selection = replicate W (replicate 81 0), engine = g\<rparr>"
  have w0: "workers_at W 0 0 0 ?s0"
    by (simp add: workers_at_def tree_ok_new_node) (simp add: new_node_def)
  from first_region [OF w0 assms, of E N] obtain s1 where
    s1: "omp_parallel (first_pass E N c) W ?s0 = Some s1"
      "workers_at W (0 + int (nat (N sdiv 4))) 0 0 s1"
      "average_selection s1 = replicate W (replicate 81 0)" by auto
  from checkpoints_ok [OF s1(2) assms, of E N "N sdiv 1000" "N sdiv 1000 sdiv 4 + 1"]
  obtain s m where
    c: "checkpoints E N c W (N sdiv 1000) (N sdiv 1000 sdiv 4 + 1) s1 = Some s"
      "workers_at W (0 + int (nat (N sdiv 4)) + int m * int (nat (N sdiv (N sdiv 1000)))) 0 0 s"
      "N sdiv 1000 sdiv 4 + 1 \<le> N sdiv 1000 \<longrightarrow> 1 \<le> m"
      "int m \<le> max 0 (N sdiv 1000 + 1 - (N sdiv 1000 sdiv 4 + 1))"
      "N sdiv 1000 < N sdiv 1000 sdiv 4 + 1 \<longrightarrow> s = s1" by blast
  have "search E N c W state g = Some s"
    using s1(1) c(1) by (simp add: search_def)
  with c(2-5) s1(3) show ?thesis
    by (intro exI [of _ s] exI [of _ m]) auto
qed

lemma max_element_scan_bound:
  "largest < first \<Longrightarrow> max_element_scan xs first v largest < first + length xs"
proof (induction xs arbitrary: first v largest)
  case Nil
  then show ?case by simp
next
  case (Cons x xs)
  from Cons.prems have a: "first < Suc first" "largest < Suc first" by simp_all
  from Cons.IH [OF a(1), of x] Cons.IH [OF a(2), of v] show ?case by simp
qed

lemma max_element_bound: "xs \<noteq> [] \<Longrightarrow> max_element xs < length xs"
  using max_element_scan_bound [of 0 1 "tl xs" "hd xs"]
  by (cases xs) (auto simp: max_element_def)

lemma length_sum_result: "length (sum_result W avs) = 81"
  by (simp add: sum_result_def)

lemma decide_zero:
  assumes "\<forall>x\<in>set (sum_result W avs). x = 0"
  shows "decide E W state avs = action_empty"
proof -
  have "sum_result W avs \<noteq> []" using length_sum_result [of W avs] by auto
  from max_element_bound [OF this]
  have "sum_result W avs ! max_element (sum_result W avs) \<in> set (sum_result W avs)"
    by simp
  with assms show ?thesis by (simp add: decide_def Let_def)
qed

lemma sum_result_zero: "\<forall>x\<in>set (sum_result W (replicate W (replicate 81 0))). x = 0"
proof -
  have "sum_list (map (\<lambda>i. replicate W (replicate 81 (0 :: int)) ! i ! j) [0..<W]) = 0"
    if "j < 81" for j
  proof -
    have eq: "map (\<lambda>i. replicate W (replicate 81 (0 :: int)) ! i ! j) [0..<W] = map (\<lambda>i. 0) [0..<W]"
      using that by (intro map_cong) simp_all
    show ?thesis unfolding eq by simp
  qed
  then show ?thesis by (auto simp: sum_result_def)
qed

subsection \<open>The claims about \<open>take_action\<close>\<close>

lemma first_checkpoint_row:
  "sum_result 1 [1000 # 500 # replicate 79 0] = 1000 # 500 # replicate 79 0"
  by code_simp

lemma first_checkpoint_scan:
  "max_two (1000 # 500 # replicate 79 0) (- INT_MAX, - INT_MAX) = (1000, 500)"
  by code_simp

text \<open>
  C1, at \<open>N = 2000\<close> with one worker and \<open>c = 1\<close>, on any board. The first pass and the
  pass of the first checkpoint (\<open>i = 1\<close>) return, and the worker has then run \<open>1500\<close>
  iterations; the loop breaks there exactly when \<open>early_exit\<close> holds of the sum of the
  rows, and \<open>early_exit\<close> takes \<open>i * N / split = 1000\<close> for the iterations run, so its
  \<open>remaining\<close> is \<open>1000\<close> where \<open>N * W - iterations_done_so_far * W\<close> is \<open>500\<close>. On the
  aggregate vector \<open>1000, 500, 0, ...\<close> the two largest counts are \<open>1000\<close> and \<open>500\<close>;
  the test of the claim holds (\<open>500 + 0.5 * 500 < 1000\<close>) and the loop does not break
  (\<open>500 + 0.5 * 1000 < 1000\<close> is false). The test itself is the one of the claim: it
  holds for \<open>1000, 100, 50\<close> and fails for \<open>110, 100, 50\<close>.
\<close>

theorem early_exit_undercounts:
  "\<exists>s1 s2.
     omp_parallel (first_pass E 2000 1) 1
         \<lparr>root_vec = replicate 1 (new_node state (- 1)),
          average_selection = replicate 1 (replicate 81 0), engine = g\<rparr> = Some s1
     \<and> search E 2000 1 1 state g = checkpoints E 2000 1 1 2 1 s1
     \<and> omp_parallel (checkpoint_pass E 2000 2 1) 1 s1 = Some s2
     \<and> total_cnt (root_vec s2 ! 0) = 1500
     \<and> checkpoints E 2000 1 1 2 1 s1
         = (if early_exit 2000 1 2 1 (sum_result 1 (average_selection s2)) then Some s2
            else checkpoints E 2000 1 1 2 2 s2)
     \<and> remaining 2000 1 2 1 = 1000
     \<and> sum_result 1 [1000 # 500 # replicate 79 0] = 1000 # 500 # replicate 79 0
     \<and> max_two (1000 # 500 # replicate 79 0) (- INT_MAX, - INT_MAX) = (1000, 500)
     \<and> exit_test 1000 500 (2000 * 1 - 1500 * 1)
     \<and> \<not> early_exit 2000 1 2 1 (sum_result 1 [1000 # 500 # replicate 79 0])
     \<and> exit_test 1000 100 50 \<and> \<not> exit_test 110 100 50"
proof -
  let ?s0 = "\<lparr>root_vec = replicate 1 (new_node state (- 1)),
          average_selection = replicate 1 (replicate 81 0), engine = g\<rparr>"
  have c: "(0 :: real) \<le> 1" by simp
  have d: "(2000 :: int) sdiv 1000 = 2" "(2000 :: int) sdiv 4 = 500" "(2000 :: int) sdiv 2 = 1000"
    "(2 :: int) sdiv 4 = 0"
    by (simp_all add: signed_divide_int_def)
  have w0: "workers_at 1 0 0 0 ?s0"
    by (simp add: workers_at_def tree_ok_new_node) (simp add: new_node_def)
  from first_region [OF w0 c, of E 2000] obtain s1 where
    s1: "omp_parallel (first_pass E 2000 1) 1 ?s0 = Some s1" and w1: "workers_at 1 500 0 0 s1"
    by (auto simp: d)
  from checkpoint_region [OF w1 c, of E 2000 2] obtain s2 where
    s2: "omp_parallel (checkpoint_pass E 2000 2 1) 1 s1 = Some s2"
    and w2: "workers_at 1 1500 0 0 s2"
    by (auto simp: d)
  from w2 have t: "total_cnt (root_vec s2 ! 0) = 1500" by (simp add: workers_at_def)
  have se: "search E 2000 1 1 state g = checkpoints E 2000 1 1 2 1 s1"
    using s1 by (simp add: search_def d)
  have ck: "checkpoints E 2000 1 1 2 1 s1
         = (if early_exit 2000 1 2 1 (sum_result 1 (average_selection s2)) then Some s2
            else checkpoints E 2000 1 1 2 2 s2)"
    using s2 by (subst checkpoints.simps) simp
  have r: "remaining 2000 1 2 1 = 1000"
    by (simp add: remaining_def d)
  have claim: "exit_test 1000 500 (2000 * 1 - 1500 * 1)"
    by (simp add: exit_test_def)
  have code: "\<not> early_exit 2000 1 2 1 (sum_result 1 [1000 # 500 # replicate 79 0])"
    by (simp only: first_checkpoint_row early_exit_def first_checkpoint_scan r Let_def
          prod.case exit_test_def)
  have inst: "exit_test 1000 100 50 \<and> \<not> exit_test 110 100 50"
    by (simp add: exit_test_def)
  from s1 se s2 t ck r first_checkpoint_row first_checkpoint_scan claim code inst
  show ?thesis by blast
qed

text \<open>
  C7, at \<open>N = 2000\<close> with one worker and \<open>c = 1\<close>. \<open>split\<close> is \<open>2\<close>, the first pass runs
  \<open>500\<close> iterations, the checkpoint loop starts at \<open>i = 2 / 4 + 1 = 1\<close> and each of its
  passes runs \<open>1000\<close> iterations. The search returns with the root visited \<open>1500\<close>
  times (early exit at the first checkpoint) or \<open>2500\<close> times, never \<open>2000\<close> times.
\<close>

theorem budget_2000_one_worker:
  "\<exists>s. search E 2000 1 1 state g = Some s \<and> length (root_vec s) = 1
     \<and> total_cnt (root_vec s ! 0) \<in> {1500, 2500}
     \<and> total_cnt (root_vec s ! 0) \<noteq> 2000"
proof -
  have c: "(0 :: real) \<le> 1" by simp
  have d: "(2000 :: int) sdiv 1000 = 2" "(2000 :: int) sdiv 4 = 500" "(2000 :: int) sdiv 2 = 1000"
    "(2 :: int) sdiv 4 = 0"
    by (simp_all add: signed_divide_int_def)
  from search_ok [OF c, of E 2000 1 state g] obtain s m where
    s: "search E 2000 1 1 state g = Some s"
    and w: "workers_at 1 (500 + int m * 1000) 0 0 s"
    and m: "1 \<le> m" "m \<le> 2"
    by (auto simp: d)
  from m have "m = 1 \<or> m = 2" by auto
  with w have "length (root_vec s) = 1" "total_cnt (root_vec s ! 0) \<in> {1500, 2500}"
    by (auto simp: workers_at_def)
  with s show ?thesis by auto
qed

lemma small_budget_search:
  fixes N :: int
  assumes n: "0 < N" "N < 1000" and c: "0 \<le> c"
  shows "\<exists>s. search E N c W state g = Some s \<and> length (root_vec s) = W
     \<and> (\<forall>i<W. total_cnt (root_vec s ! i) = N sdiv 4)
     \<and> take_action E N c W state g = Some (action_empty, engine s)"
proof -
  from n have sp: "N sdiv 1000 = 0" by (simp add: signed_divide_int_def sgn_if)
  from n have q: "0 \<le> N sdiv 4" by (simp add: signed_divide_int_def sgn_if)
  from search_ok [OF c, of E N W state g] obtain s m where
    s: "search E N c W state g = Some s"
    and w: "workers_at W (int (nat (N sdiv 4)) + int m * int (nat (N sdiv (N sdiv 1000)))) 0 0 s"
    and m: "int m \<le> max 0 (N sdiv 1000 - N sdiv 1000 sdiv 4)"
    and z: "N sdiv 1000 < N sdiv 1000 sdiv 4 + 1 \<longrightarrow>
          average_selection s = replicate W (replicate 81 0)"
    by blast
  from m have m0: "m = 0" by (simp add: sp)
  from z have av: "average_selection s = replicate W (replicate 81 0)" by (simp add: sp)
  from w q have w': "length (root_vec s) = W" "\<forall>i<W. total_cnt (root_vec s ! i) = N sdiv 4"
    by (simp_all add: workers_at_def m0)
  have "decide E W state (average_selection s) = action_empty"
    unfolding av using sum_result_zero by (rule decide_zero)
  with s n have "take_action E N c W state g = Some (action_empty, engine s)"
    by (simp add: take_action_def)
  with s w' show ?thesis by blast
qed

text \<open>
  C8, as the code has it. \<open>take_action\<close> has no check of its own. The one error a
  configuration can cause is the exception of \<^verbatim>\<open>std::stod\<close> in the conversion of \<open>N\<close> or
  of \<open>c\<close>: a key that is missing reads as the empty string, for which \<^verbatim>\<open>std::stod\<close>
  throws \<^verbatim>\<open>std::invalid_argument\<close>, and whatever \<^verbatim>\<open>std::stod\<close> throws for the string of
  \<open>N\<close> or of \<open>c\<close> ends the call, before any worker exists. A budget that converts to
  \<open>0\<close> is not an error: the call returns the empty action and leaves the engine as it
  was, no worker has run. A budget \<open>0 < N < 1000\<close>, for which \<open>split = N / 1000\<close> is
  \<open>0\<close>, is not an error either (for \<open>c \<ge> 0\<close>): every worker runs the first pass of
  \<open>N / 4\<close> iterations, the checkpoint loop is not entered, so that \<open>N / split\<close> is
  never computed, and the call returns the empty action.
\<close>

theorem take_action_configuration:
  fixes N :: int
  shows
  "(meta ''N'' = None \<and> stod [] = Inl invalid_argument \<longrightarrow>
      take_action_call E stod meta W state g = Some (Inl invalid_argument))
   \<and> (stod (meta_at meta ''N'') = Inl e \<longrightarrow>
        take_action_call E stod meta W state g = Some (Inl e))
   \<and> (stod (meta_at meta ''N'') = Inr dN \<and> to_int dN = Some N
        \<and> stod (meta_at meta ''c'') = Inl e \<longrightarrow>
        take_action_call E stod meta W state g = Some (Inl e))
   \<and> (stod (meta_at meta ''N'') = Inr dN \<and> to_int dN = Some 0
        \<and> stod (meta_at meta ''c'') = Inr c \<longrightarrow>
        take_action_call E stod meta W state g = Some (Inr (action_empty, g)))
   \<and> (stod (meta_at meta ''N'') = Inr dN \<and> to_int dN = Some N \<and> 0 < N \<and> N < 1000
        \<and> stod (meta_at meta ''c'') = Inr c \<and> 0 \<le> c \<longrightarrow>
        (\<exists>s. search E N c W state g = Some s \<and> length (root_vec s) = W
           \<and> (\<forall>i<W. total_cnt (root_vec s ! i) = N sdiv 4)
           \<and> take_action_call E stod meta W state g = Some (Inr (action_empty, engine s))))"
proof -
  have 1: "take_action_call E stod meta W state g = Some (Inl invalid_argument)"
    if "meta ''N'' = None" "stod [] = Inl invalid_argument"
    using that by (simp add: take_action_call_def meta_at_def)
  have 2: "take_action_call E stod meta W state g = Some (Inl e)"
    if "stod (meta_at meta ''N'') = Inl e"
    using that by (simp add: take_action_call_def)
  have 3: "take_action_call E stod meta W state g = Some (Inl e)"
    if "stod (meta_at meta ''N'') = Inr dN" "to_int dN = Some N" "stod (meta_at meta ''c'') = Inl e"
    using that by (simp add: take_action_call_def)
  have 4: "take_action_call E stod meta W state g = Some (Inr (action_empty, g))"
    if "stod (meta_at meta ''N'') = Inr dN" "to_int dN = Some 0" "stod (meta_at meta ''c'') = Inr c"
    using that by (simp add: take_action_call_def take_action_def)
  have 5: "\<exists>s. search E N c W state g = Some s \<and> length (root_vec s) = W
           \<and> (\<forall>i<W. total_cnt (root_vec s ! i) = N sdiv 4)
           \<and> take_action_call E stod meta W state g = Some (Inr (action_empty, engine s))"
    if "stod (meta_at meta ''N'') = Inr dN" "to_int dN = Some N" "0 < N" "N < 1000"
      "stod (meta_at meta ''c'') = Inr c" "0 \<le> c"
  proof -
    from small_budget_search [OF that(3,4,6), of E W state g] obtain s where
      s: "search E N c W state g = Some s" "length (root_vec s) = W"
        "\<forall>i<W. total_cnt (root_vec s ! i) = N sdiv 4"
        "take_action E N c W state g = Some (action_empty, engine s)"
      by blast
    from that(1,2,5) s(4)
    have "take_action_call E stod meta W state g = Some (Inr (action_empty, engine s))"
      by (simp add: take_action_call_def)
    with s(1-3) show ?thesis by blast
  qed
  from 1 2 3 4 5 show ?thesis by blast
qed

lemma stod_digits_values:
  "stod_digits [] = Inl invalid_argument"
  "stod_digits ''abc'' = Inl invalid_argument"
  "stod_digits ''0'' = Inr 0"
  "stod_digits ''1'' = Inr 1"
  "stod_digits ''4'' = Inr 4"
  by (simp_all add: stod_digits_def digit_of_def)

lemma to_int_values: "to_int 0 = Some 0" "to_int 4 = Some 4"
  by (simp_all add: to_int_def INT_MAX_def)

theorem take_action_configuration_witness:
  "take_action_call toy stod_digits Map.empty 2 ([0, 2, 4], Black) 0
     = Some (Inl invalid_argument)
   \<and> take_action_call toy stod_digits [''N'' \<mapsto> ''abc'', ''c'' \<mapsto> ''1''] 2 ([0, 2, 4], Black) 0
     = Some (Inl invalid_argument)
   \<and> take_action_call toy stod_digits [''N'' \<mapsto> ''4''] 2 ([0, 2, 4], Black) 0
     = Some (Inl invalid_argument)
   \<and> take_action_call toy stod_digits [''N'' \<mapsto> ''0'', ''c'' \<mapsto> ''1''] 2 ([0, 2, 4], Black) 0
     = Some (Inr (action_empty, 0))
   \<and> (\<exists>s. search toy 4 1 2 ([0, 2, 4], Black) 0 = Some s
         \<and> total_cnt (root_vec s ! 0) = 1 \<and> total_cnt (root_vec s ! 1) = 1
         \<and> take_action_call toy stod_digits [''N'' \<mapsto> ''4'', ''c'' \<mapsto> ''1''] 2 ([0, 2, 4], Black) 0
             = Some (Inr (action_empty, engine s)))"
proof -
  note T = take_action_configuration [where E = toy and stod = stod_digits and W = 2
      and state = "([0, 2, 4], Black)" and g = 0]
  have a: "take_action_call toy stod_digits Map.empty 2 ([0, 2, 4], Black) 0
     = Some (Inl invalid_argument)"
    using T [where meta = Map.empty] by (simp add: stod_digits_values)
  have b: "take_action_call toy stod_digits [''N'' \<mapsto> ''abc'', ''c'' \<mapsto> ''1''] 2 ([0, 2, 4], Black) 0
     = Some (Inl invalid_argument)"
    using T [where meta = "[''N'' \<mapsto> ''abc'', ''c'' \<mapsto> ''1'']" and e = invalid_argument]
    by (simp add: stod_digits_values meta_at_def)
  have c: "take_action_call toy stod_digits [''N'' \<mapsto> ''4''] 2 ([0, 2, 4], Black) 0
     = Some (Inl invalid_argument)"
    using T [where meta = "[''N'' \<mapsto> ''4'']" and e = invalid_argument and dN = 4 and N = 4]
    by (simp add: stod_digits_values to_int_values meta_at_def)
  have d: "take_action_call toy stod_digits [''N'' \<mapsto> ''0'', ''c'' \<mapsto> ''1''] 2 ([0, 2, 4], Black) 0
     = Some (Inr (action_empty, 0))"
    using T [where meta = "[''N'' \<mapsto> ''0'', ''c'' \<mapsto> ''1'']" and dN = 0 and c = 1]
    by (simp add: stod_digits_values to_int_values meta_at_def)
  have s4: "(4 :: int) sdiv 4 = 1" by (simp add: signed_divide_int_def)
  have e: "\<exists>s. search toy 4 1 2 ([0, 2, 4], Black) 0 = Some s
         \<and> total_cnt (root_vec s ! 0) = 1 \<and> total_cnt (root_vec s ! 1) = 1
         \<and> take_action_call toy stod_digits [''N'' \<mapsto> ''4'', ''c'' \<mapsto> ''1''] 2 ([0, 2, 4], Black) 0
             = Some (Inr (action_empty, engine s))"
    using T [where meta = "[''N'' \<mapsto> ''4'', ''c'' \<mapsto> ''1'']" and dN = 4 and N = 4 and c = 1]
    by (simp add: stod_digits_values to_int_values meta_at_def s4) (auto simp: numeral_2_eq_2)
  from a b c d e show ?thesis by blast
qed

text \<open>
  C8 as stated fails: a call with \<open>N = 0\<close> is answered with the empty action, the
  value that also stands for "no move", and not with an error.
\<close>

theorem zero_budget_is_not_rejected:
  "take_action_call toy stod_digits [''N'' \<mapsto> ''0'', ''c'' \<mapsto> ''1''] 4 ([0, 2, 4], Black) 7
     = Some (Inr (action_empty, 7))"
  by (simp add: take_action_call_def stod_digits_values to_int_values meta_at_def take_action_def)

subsection \<open>A root without legal moves\<close>

lemma replicate_update_same: "(replicate n x)[j := x] = replicate n x"
  by (induction n arbitrary: j) (simp_all split: nat.splits)

lemma first_free_None: "\<forall>i. place E (brd n) i = None \<Longrightarrow> first_free E n vec = None"
  by (induction vec) simp_all

lemma cycle_no_move:
  assumes "\<forall>i. place E (brd t) i = None" "child t = []"
  shows "\<exists>t' g'. cycle E c t g = Some (t', g') \<and> child t' = [] \<and> brd t' = brd t"
proof -
  have leaf: "is_leaf E t" using assms(1) by (simp add: is_leaf_def)
  then have sel: "select_root_to_leaf E c t = Some []"
    by (subst select_root_to_leaf.simps) simp
  obtain vec g1 where as: "all_space E g = (vec, g1)" by (cases "all_space E g")
  have exp: "expand_from_leaf E g t = ((t, None), g1)"
    using as first_free_None [OF assms(1)] by (simp add: expand_from_leaf_def)
  from simulate_winner_total [of E g1 t] obtain w g2 where
    sim: "simulate_winner E g1 t = Some (w, g2)" by blast
  have "cycle E c t g = Some (visit E w t, g2)"
    using sel exp sim by (simp add: cycle_def)
  with assms(2) show ?thesis by (simp add: visit_def)
qed

lemma MCTS_loop_no_move:
  "\<forall>i. place E (brd t) i = None \<Longrightarrow> child t = [] \<Longrightarrow>
   \<exists>t' g'. MCTS_loop E c n t g = Some (t', g') \<and> child t' = [] \<and> brd t' = brd t"
proof (induction n arbitrary: t g)
  case 0
  then show ?case by simp
next
  case (Suc n)
  from cycle_no_move [OF Suc.prems, of c g] obtain t1 g1 where
    c1: "cycle E c t g = Some (t1, g1)" "child t1 = []" "brd t1 = brd t" by blast
  from Suc.prems(1) c1(3) have "\<forall>i. place E (brd t1) i = None" by simp
  from Suc.IH [OF this c1(2), of g1] c1 show ?case by auto
qed

lemma MCTS_no_move:
  assumes "\<forall>i. place E (brd t) i = None" "child t = []"
  shows "\<exists>t' g'. MCTS E N g c t = Some (- 1, t', g') \<and> child t' = [] \<and> brd t' = brd t"
proof -
  from MCTS_loop_no_move [OF assms, of c "nat N" g] obtain t' g' where
    l: "MCTS_loop E c (nat N) t g = Some (t', g')" "child t' = []" "brd t' = brd t" by blast
  then show ?thesis by (simp add: MCTS_def select_action_def)
qed

lemma first_pass_stuck:
  assumes "\<forall>i. place E state i = None" "j < W" "stuck_workers W state s"
  shows "\<exists>s'. first_pass E N c j s = Some s' \<and> stuck_workers W state s'"
proof -
  from assms(2,3) have r: "child (root_vec s ! j) = []" "brd (root_vec s ! j) = state"
    by (auto simp: stuck_workers_def)
  from assms(1) r(2) have "\<forall>i. place E (brd (root_vec s ! j)) i = None" by simp
  from MCTS_no_move [OF this r(1), of "N sdiv 4" "engine s" c] obtain t g where
    m: "MCTS E (N sdiv 4) (engine s) c (root_vec s ! j) = Some (- 1, t, g)" "child t = []"
      "brd t = brd (root_vec s ! j)" by blast
  have "stuck_workers W state (s\<lparr>root_vec := (root_vec s)[j := t], engine := g\<rparr>)"
    using assms(2,3) m(2,3) r(2) by (auto simp: stuck_workers_def nth_list_update)
  with m(1) show ?thesis by (simp add: first_pass_def)
qed

lemma checkpoint_pass_stuck:
  assumes "\<forall>i. place E state i = None" "j < W" "stuck_workers W state s"
  shows "\<exists>s'. checkpoint_pass E N split c j s = Some s' \<and> stuck_workers W state s'"
proof -
  from assms(2,3) have r: "child (root_vec s ! j) = []" "brd (root_vec s ! j) = state"
    by (auto simp: stuck_workers_def)
  from assms(1) r(2) have "\<forall>i. place E (brd (root_vec s ! j)) i = None" by simp
  from MCTS_no_move [OF this r(1), of "N sdiv split" "engine s" c] obtain t g where
    m: "MCTS E (N sdiv split) (engine s) c (root_vec s ! j) = Some (- 1, t, g)" "child t = []"
      "brd t = brd (root_vec s ! j)" by blast
  have "stuck_workers W state
      (s\<lparr>root_vec := (root_vec s)[j := t],
         average_selection :=
           (average_selection s)[j := record_children (child t) (average_selection s ! j)],
         engine := g\<rparr>)"
    using assms(2,3) m(2,3) r(2)
    by (auto simp: stuck_workers_def nth_list_update replicate_update_same)
  with m(1) show ?thesis by (simp add: checkpoint_pass_def)
qed

lemma checkpoints_stuck:
  "\<forall>i. place E state i = None \<Longrightarrow> stuck_workers W state s \<Longrightarrow>
   \<exists>s'. checkpoints E N c W split i s = Some s' \<and> stuck_workers W state s'"
proof (induction E N c W split i s rule: checkpoints.induct)
  case (1 E N c W split i s)
  show ?case
  proof (cases "i \<le> split")
    case False
    with "1.prems"(2) show ?thesis by (subst checkpoints.simps) simp
  next
    case True
    have step: "\<exists>s'. checkpoint_pass E N split c j s1 = Some s' \<and> stuck_workers W state s'"
      if "j < W" "stuck_workers W state s1" for j s1
      using checkpoint_pass_stuck [OF "1.prems"(1) that] .
    from omp_parallel_inv [of W "\<lambda>j. stuck_workers W state" "checkpoint_pass E N split c" s,
        OF step "1.prems"(2)]
    obtain s1 where r: "omp_parallel (checkpoint_pass E N split c) W s = Some s1"
      "stuck_workers W state s1" by blast
    show ?thesis
    proof (cases "early_exit N (int W) split i (sum_result W (average_selection s1))")
      case ex: True
      with True r show ?thesis by (subst checkpoints.simps) simp
    next
      case ex: False
      from "1.IH" [OF True r(1) ex "1.prems"(1) r(2)] True r(1) ex show ?thesis
        by (subst checkpoints.simps) simp
    qed
  qed
qed

lemma search_stuck:
  assumes "\<forall>i. place E state i = None"
  shows "\<exists>s. search E N c W state g = Some s \<and> stuck_workers W state s"
proof -
  let ?s0 = "\<lparr>root_vec = replicate W (new_node state (- 1)),
              average_selection = replicate W (replicate 81 0), engine = g\<rparr>"
  have s0: "stuck_workers W state ?s0"
    by (simp add: stuck_workers_def new_node_def)
  have step: "\<exists>s'. first_pass E N c j s1 = Some s' \<and> stuck_workers W state s'"
    if "j < W" "stuck_workers W state s1" for j s1
    using first_pass_stuck [OF assms that] .
  from omp_parallel_inv [of W "\<lambda>j. stuck_workers W state" "first_pass E N c" ?s0, OF step s0]
  obtain s1 where s1: "omp_parallel (first_pass E N c) W ?s0 = Some s1" "stuck_workers W state s1"
    by blast
  from checkpoints_stuck [OF assms s1(2), of N c "N sdiv 1000" "N sdiv 1000 sdiv 4 + 1"] s1(1)
  show ?thesis by (simp add: search_def Let_def)
qed

subsection \<open>Only legal positions are recorded\<close>

lemma back_propagate_root:
  "brd (back_propagate E p w t) = brd t
   \<and> map fst (child (back_propagate E p w t)) = map fst (child t)"
  by (cases p) (simp_all add: visit_def map_fst_map_child)

lemma update_at_root:
  "p \<noteq> [] \<Longrightarrow> brd (update_at p f t) = brd t \<and> map fst (child (update_at p f t)) = map fst (child t)"
  by (cases p) (simp_all add: map_fst_map_child)

lemma expand_root:
  assumes "expand_from_leaf E g t = ((t', ex), g')"
  shows "brd t' = brd t
    \<and> (\<forall>k\<in>set (map fst (child t')). k \<in> set (map fst (child t)) \<or> place E (brd t) k \<noteq> None)"
proof -
  obtain vec g1 where as: "all_space E g = (vec, g1)" by (cases "all_space E g")
  show ?thesis
  proof (cases "first_free E t vec")
    case None
    with assms as show ?thesis by (simp add: expand_from_leaf_def)
  next
    case (Some pb)
    obtain pos b where pb: "pb = (pos, b)" by (cases pb)
    from Some pb first_free_Some [of E t vec pos b] have "place E (brd t) pos = Some b" by simp
    moreover from assms as Some pb have
      "t' = Node (brd t) (win_cnt t) (total_cnt t) (place_pos t)
              (child t @ [(pos, new_node b (int pos))])"
      by (simp add: expand_from_leaf_def)
    ultimately show ?thesis by auto
  qed
qed

lemma cycle_legal:
  assumes "cycle E c t g = Some (t', g')" "legal_root E state t"
  shows "legal_root E state t'"
proof -
  from assms(1) obtain path leaf where
    sel: "select_root_to_leaf E c t = Some path" and at: "node_at path t = Some leaf"
    by (auto simp: cycle_def split: option.splits)
  obtain leaf' ex g1 where exp: "expand_from_leaf E g leaf = ((leaf', ex), g1)"
    by (metis surj_pair)
  define tree1 where "tree1 = update_at path (\<lambda>_. leaf') t"
  define path1 where "path1 = (case ex of None \<Rightarrow> path | Some pos \<Rightarrow> path @ [pos])"
  from assms(1) sel at exp obtain w where t': "t' = back_propagate E path1 w tree1"
    by (auto simp: cycle_def tree1_def path1_def Let_def split: option.splits)
  have "legal_root E state tree1"
  proof (cases path)
    case Nil
    with at have "leaf = t" by simp
    with expand_root [OF exp] have e: "brd leaf' = brd t"
      "\<forall>k\<in>set (map fst (child leaf')). k \<in> set (map fst (child t)) \<or> place E (brd t) k \<noteq> None"
      by simp_all
    have "\<forall>k\<in>set (map fst (child leaf')). place E state k \<noteq> None"
    proof
      fix k assume "k \<in> set (map fst (child leaf'))"
      with e(2) have "k \<in> set (map fst (child t)) \<or> place E (brd t) k \<noteq> None" by blast
      with assms(2) show "place E state k \<noteq> None" unfolding legal_root_def by blast
    qed
    with e(1) assms(2) Nil show ?thesis
      by (simp add: tree1_def legal_root_def)
  next
    case (Cons k ks)
    then have "path \<noteq> []" by simp
    from update_at_root [OF this, of "\<lambda>_. leaf'" t] assms(2) show ?thesis
      by (simp add: tree1_def legal_root_def)
  qed
  then show ?thesis
    using back_propagate_root [of E path1 w tree1] by (simp add: t' legal_root_def)
qed

lemma MCTS_loop_legal:
  "MCTS_loop E c n t g = Some (t', g') \<Longrightarrow> legal_root E state t \<Longrightarrow> legal_root E state t'"
proof (induction n arbitrary: t g)
  case 0
  then show ?case by simp
next
  case (Suc n)
  from Suc.prems(1) obtain t1 g1 where
    c1: "cycle E c t g = Some (t1, g1)" and l: "MCTS_loop E c n t1 g1 = Some (t', g')"
    by (auto split: option.splits)
  from Suc.IH [OF l cycle_legal [OF c1 Suc.prems(2)]] show ?case .
qed

lemma MCTS_legal:
  "MCTS E N g c t = Some (a, t', g') \<Longrightarrow> legal_root E state t \<Longrightarrow> legal_root E state t'"
  by (auto simp: MCTS_def split: option.splits dest: MCTS_loop_legal)

lemma record_children_legal:
  "\<forall>k\<in>set (map fst chs). place E state k \<noteq> None \<Longrightarrow>
   \<forall>p<length row. row ! p \<noteq> 0 \<longrightarrow> place E state p \<noteq> None \<Longrightarrow>
   length (record_children chs row) = length row
   \<and> (\<forall>p<length row. record_children chs row ! p \<noteq> 0 \<longrightarrow> place E state p \<noteq> None)"
proof (induction chs arbitrary: row)
  case Nil
  then show ?case by simp
next
  case (Cons e chs)
  obtain k ch where e: "e = (k, ch)" by (cases e)
  from Cons.prems(1) e have k: "place E state k \<noteq> None"
    and rest: "\<forall>k\<in>set (map fst chs). place E state k \<noteq> None" by auto
  have row': "\<forall>p<length (row[k := total_cnt ch]). row[k := total_cnt ch] ! p \<noteq> 0
       \<longrightarrow> place E state p \<noteq> None"
  proof (intro allI impI)
    fix p assume p: "p < length (row[k := total_cnt ch])" "row[k := total_cnt ch] ! p \<noteq> 0"
    show "place E state p \<noteq> None"
    proof (cases "p = k")
      case True
      with k show ?thesis by simp
    next
      case False
      with p have "p < length row" "row ! p \<noteq> 0" by simp_all
      with Cons.prems(2) show ?thesis by blast
    qed
  qed
  from Cons.IH [OF rest row'] show ?case by (simp add: e)
qed

lemma first_pass_legal:
  assumes "j < W" "legal_rows E state W s" "first_pass E N c j s = Some s'"
  shows "legal_rows E state W s'"
proof -
  from assms(3) obtain a t g where
    m: "MCTS E (N sdiv 4) (engine s) c (root_vec s ! j) = Some (a, t, g)"
    and s': "s' = s\<lparr>root_vec := (root_vec s)[j := t], engine := g\<rparr>"
    by (auto simp: first_pass_def split: option.splits)
  from assms(1,2) have "legal_root E state (root_vec s ! j)" by (simp add: legal_rows_def)
  from MCTS_legal [OF m this] assms(1,2) show ?thesis
    by (auto simp: s' legal_rows_def nth_list_update)
qed

lemma checkpoint_pass_legal:
  assumes "j < W" "legal_rows E state W s" "checkpoint_pass E N split c j s = Some s'"
  shows "legal_rows E state W s'"
proof -
  from assms(3) obtain a t g where
    m: "MCTS E (N sdiv split) (engine s) c (root_vec s ! j) = Some (a, t, g)"
    and s': "s' = s\<lparr>root_vec := (root_vec s)[j := t],
                 average_selection :=
                   (average_selection s)[j := record_children (child t) (average_selection s ! j)],
                 engine := g\<rparr>"
    by (auto simp: checkpoint_pass_def split: option.splits)
  from assms(1,2) have lr: "legal_root E state (root_vec s ! j)"
    and len: "length (average_selection s ! j) = 81"
    and row: "\<forall>p<81. average_selection s ! j ! p \<noteq> 0 \<longrightarrow> place E state p \<noteq> None"
    by (simp_all add: legal_rows_def)
  from MCTS_legal [OF m lr] have lt: "legal_root E state t" .
  then have keys: "\<forall>k\<in>set (map fst (child t)). place E state k \<noteq> None"
    by (simp add: legal_root_def)
  from record_children_legal [OF keys, of "average_selection s ! j"] row len
  have rc: "length (record_children (child t) (average_selection s ! j)) = 81"
    "\<forall>p<81. record_children (child t) (average_selection s ! j) ! p \<noteq> 0
       \<longrightarrow> place E state p \<noteq> None"
    by auto
  show ?thesis
    using assms(1,2) lt rc by (auto simp: s' legal_rows_def nth_list_update)
qed

lemma omp_parallel_ids_keeps:
  "(\<And>j s s'. j \<in> set ids \<Longrightarrow> I s \<Longrightarrow> block j s = Some s' \<Longrightarrow> I s') \<Longrightarrow>
   I s \<Longrightarrow> omp_parallel_ids block ids s = Some s' \<Longrightarrow> I s'"
proof (induction ids arbitrary: s)
  case Nil
  then show ?case by simp
next
  case (Cons j ids)
  from Cons.prems(3) obtain s1 where s1: "block j s = Some s1"
    "omp_parallel_ids block ids s1 = Some s'" by (auto split: option.splits)
  from Cons.prems(1) [of j s s1] Cons.prems(2) s1(1) have i1: "I s1" by simp
  have step: "I x'" if "k \<in> set ids" "I x" "block k x = Some x'" for k x x'
    using Cons.prems(1) [of k x x'] that by simp
  from Cons.IH [OF step i1 s1(2)] show ?case .
qed

lemma omp_parallel_keeps:
  assumes "\<And>j s s'. j < W \<Longrightarrow> I s \<Longrightarrow> block j s = Some s' \<Longrightarrow> I s'"
    and "I s" "omp_parallel block W s = Some s'"
  shows "I s'"
proof (rule omp_parallel_ids_keeps [of "[0..<W]" I block s s'])
  show "I x'" if "j \<in> set [0..<W]" "I x" "block j x = Some x'" for j x x'
    using assms(1) [of j x x'] that by simp
  show "I s" by (rule assms(2))
  show "omp_parallel_ids block [0..<W] s = Some s'"
    using assms(3) by (simp add: omp_parallel_def)
qed

lemma checkpoints_legal:
  "checkpoints E N c W split i s = Some s' \<Longrightarrow> legal_rows E state W s \<Longrightarrow> legal_rows E state W s'"
proof (induction E N c W split i s rule: checkpoints.induct)
  case (1 E N c W split i s)
  show ?case
  proof (cases "i \<le> split")
    case False
    with "1.prems" show ?thesis by (subst (asm) checkpoints.simps) simp
  next
    case True
    from "1.prems"(1) True obtain s1 where
      r: "omp_parallel (checkpoint_pass E N split c) W s = Some s1"
      by (subst (asm) checkpoints.simps) (auto split: option.splits)
    have l1: "legal_rows E state W s1"
      by (rule omp_parallel_keeps [of W "legal_rows E state W" "checkpoint_pass E N split c" s s1,
            OF checkpoint_pass_legal "1.prems"(2) r])
    show ?thesis
    proof (cases "early_exit N (int W) split i (sum_result W (average_selection s1))")
      case ex: True
      from "1.prems"(1) True r ex have "s' = s1" by (subst (asm) checkpoints.simps) simp
      with l1 show ?thesis by simp
    next
      case ex: False
      from "1.prems"(1) True r ex have "checkpoints E N c W split (i + 1) s1 = Some s'"
        by (subst (asm) checkpoints.simps) simp
      from "1.IH" [OF True r ex this l1] show ?thesis .
    qed
  qed
qed

lemma search_legal:
  assumes "search E N c W state g = Some s"
  shows "legal_rows E state W s"
proof -
  let ?s0 = "\<lparr>root_vec = replicate W (new_node state (- 1)),
              average_selection = replicate W (replicate 81 0), engine = g\<rparr>"
  have l0: "legal_rows E state W ?s0"
    by (simp add: legal_rows_def legal_root_def new_node_def)
  from assms obtain s1 where
    s1: "omp_parallel (first_pass E N c) W ?s0 = Some s1"
    and c: "checkpoints E N c W (N sdiv 1000) (N sdiv 1000 sdiv 4 + 1) s1 = Some s"
    by (auto simp: search_def Let_def split: option.splits)
  have "legal_rows E state W s1"
    by (rule omp_parallel_keeps [of W "legal_rows E state W" "first_pass E N c" ?s0 s1,
          OF first_pass_legal l0 s1])
  from checkpoints_legal [OF c this] show ?thesis .
qed

lemma sum_list_nonzero: "sum_list xs \<noteq> (0 :: int) \<Longrightarrow> \<exists>x\<in>set xs. x \<noteq> 0"
  by (induction xs) auto

lemma decide_legal:
  assumes "legal_rows E state W s" "decide E W state (average_selection s) = action_place p w"
  shows "p < 81 \<and> w = who_take_turns E state \<and> place E state p \<noteq> None"
proof -
  let ?r = "sum_result W (average_selection s)"
  have ne: "?r \<noteq> []" using length_sum_result [of W "average_selection s"] by auto
  from max_element_bound [OF ne] have lt: "max_element ?r < 81"
    by (simp add: length_sum_result)
  from assms(2) have p: "p = max_element ?r" and w: "w = who_take_turns E state"
    and nz: "?r ! max_element ?r \<noteq> 0"
    by (auto simp: decide_def Let_def split: if_splits)
  from nz lt have "sum_list (map (\<lambda>i. average_selection s ! i ! p) [0..<W]) \<noteq> 0"
    by (simp add: sum_result_def p)
  from sum_list_nonzero [OF this] obtain i where "i < W" "average_selection s ! i ! p \<noteq> 0"
    by auto
  with assms(1) lt p have "place E state p \<noteq> None" by (auto simp: legal_rows_def)
  with lt p w show ?thesis by simp
qed

lemma take_action_legal:
  assumes "take_action E N c W state g = Some (a, g')"
  shows "a = action_empty
    \<or> (\<exists>p<81. a = action_place p (who_take_turns E state) \<and> place E state p \<noteq> None)"
proof (cases "N = 0")
  case True
  with assms show ?thesis by (simp add: take_action_def)
next
  case False
  with assms obtain s where s: "search E N c W state g = Some s"
    and a: "a = decide E W state (average_selection s)"
    by (auto simp: take_action_def split: option.splits)
  show ?thesis
  proof (cases a)
    case action_empty
    then show ?thesis by simp
  next
    case (action_place p w)
    with a have "decide E W state (average_selection s) = action_place p w" by simp
    from decide_legal [OF search_legal [OF s] this] action_place show ?thesis by auto
  qed
qed

lemma take_action_total:
  assumes "0 \<le> c"
  shows "\<exists>a g'. take_action E N c W state g = Some (a, g')"
proof (cases "N = 0")
  case True
  then show ?thesis by (simp add: take_action_def)
next
  case False
  from search_ok [OF assms, of E N W state g] obtain s where "search E N c W state g = Some s"
    by blast
  with False show ?thesis by (simp add: take_action_def)
qed

text \<open>
  C9. When the aggregate vector is all zero, the decision is the empty action. When
  no position is legal on the root board, \<open>take_action\<close> returns, and returns the
  empty action, for every budget, constant and number of workers. \<open>select_action\<close>
  on a node without children returns \<open>- 1\<close>. Whatever \<open>take_action\<close> returns is the
  empty action or a position below \<open>81\<close> that is legal on the root board, for the
  player to move there.
\<close>

theorem no_move_result:
  "((\<forall>x\<in>set (sum_result W avs). x = 0) \<longrightarrow> decide E W state avs = action_empty)
   \<and> ((\<forall>i. place E state i = None) \<longrightarrow>
        (\<exists>g'. take_action E N c W state g = Some (action_empty, g')))
   \<and> (child n = [] \<longrightarrow> select_action n = Some (- 1))
   \<and> (take_action E N c W state g = Some (a, g1) \<longrightarrow>
        a = action_empty
        \<or> (\<exists>p<81. a = action_place p (who_take_turns E state) \<and> place E state p \<noteq> None))"
proof -
  have a: "decide E W state avs = action_empty" if "\<forall>x\<in>set (sum_result W avs). x = 0"
    using that by (rule decide_zero)
  have b: "\<exists>g'. take_action E N c W state g = Some (action_empty, g')"
    if "\<forall>i. place E state i = None"
  proof (cases "N = 0")
    case True
    then show ?thesis by (simp add: take_action_def)
  next
    case False
    from search_stuck [OF that, of N c W g] obtain s where
      s: "search E N c W state g = Some s" "stuck_workers W state s" by blast
    from s(2) have "average_selection s = replicate W (replicate 81 0)"
      by (simp add: stuck_workers_def)
    then have "decide E W state (average_selection s) = action_empty"
      using decide_zero [OF sum_result_zero] by simp
    with s(1) False show ?thesis by (simp add: take_action_def)
  qed
  have c: "select_action n = Some (- 1)" if "child n = []"
    using that by (simp add: select_action_def)
  have d: "a = action_empty
        \<or> (\<exists>p<81. a = action_place p (who_take_turns E state) \<and> place E state p \<noteq> None)"
    if "take_action E N c W state g = Some (a, g1)"
    using that by (rule take_action_legal)
  from a b c d show ?thesis by blast
qed

theorem no_move_result_witness:
  "decide toy 2 ([], Black) (replicate 2 (replicate 81 0)) = action_empty
   \<and> (\<exists>g'. take_action toy 2000 1 2 ([], Black) 0 = Some (action_empty, g'))
   \<and> select_action (new_node ([] :: nat list, Black) (- 1)) = Some (- 1)
   \<and> (\<exists>a g'. take_action toy 2000 1 2 ([0, 2, 4], Black) 0 = Some (a, g')
         \<and> (a = action_empty \<or> a = action_place 0 Black \<or> a = action_place 2 Black
              \<or> a = action_place 4 Black))"
proof -
  have p: "\<forall>i. place toy ([], Black) i = None"
    by (simp add: toy_def toy_place_def)
  have q: "child (new_node ([] :: nat list, Black) (- 1)) = []"
    by (simp add: new_node_def)
  note r = no_move_result [of 2 "replicate 2 (replicate 81 0)" toy "([], Black)" 2000 1 0
      "new_node ([], Black) (- 1)"]
  from r sum_result_zero [of 2]
  have 1: "decide toy 2 ([], Black) (replicate 2 (replicate 81 0)) = action_empty" by blast
  from r p have 2: "\<exists>g'. take_action toy 2000 1 2 ([], Black) 0 = Some (action_empty, g')"
    by blast
  from r q have 3: "select_action (new_node ([] :: nat list, Black) (- 1)) = Some (- 1)"
    by blast
  have c: "(0 :: real) \<le> 1" by simp
  from take_action_total [OF c, of toy 2000 2 "([0, 2, 4], Black)" 0] obtain a g' where
    t: "take_action toy 2000 1 2 ([0, 2, 4], Black) 0 = Some (a, g')" by blast
  from no_move_result [of 2 "replicate 2 (replicate 81 0)" toy "([0, 2, 4], Black)" 2000 1 0
      "new_node ([], Black) (- 1)" a g'] t
  have "a = action_empty
        \<or> (\<exists>p<81. a = action_place p (who_take_turns toy ([0, 2, 4], Black))
              \<and> place toy ([0, 2, 4], Black) p \<noteq> None)" by blast
  then have "a = action_empty \<or> a = action_place 0 Black \<or> a = action_place 2 Black
              \<or> a = action_place 4 Black"
    by (auto simp: toy_def toy_place_def split: if_splits)
  with t have 4: "\<exists>a g'. take_action toy 2000 1 2 ([0, 2, 4], Black) 0 = Some (a, g')
         \<and> (a = action_empty \<or> a = action_place 0 Black \<or> a = action_place 2 Black
              \<or> a = action_place 4 Black)" by blast
  from 1 2 3 4 show ?thesis by blast
qed

subsection \<open>Two workers on the small game\<close>

lemma toy_who: "who_take_turns toy b = snd b"
  by (simp add: toy_def)

lemma toy_count3: "length (filter (\<lambda>i. i \<in> set [0, 2, 4 :: nat]) [0..<81]) = 3"
  by code_simp

lemma toy_root_leaf: "is_leaf toy (new_node ([0, 2, 4], Black) (- 1))"
  using toy_count3 by (simp add: is_leaf_toy new_node_def)

lemma toy_cycle_0:
  "cycle toy 1 (new_node ([0, 2, 4], Black) (- 1)) 0
   = Some (Node ([0, 2, 4], Black) (- 1) 1 (- 1) [(0, Node ([2, 4], White) 1 1 0 [])], 2)"
proof -
  have sel: "select_root_to_leaf toy 1 (new_node ([0, 2, 4], Black) (- 1)) = Some []"
    using toy_root_leaf by (subst select_root_to_leaf.simps) simp
  have exp: "expand_from_leaf toy 0 (new_node ([0, 2, 4], Black) (- 1))
     = ((Node ([0, 2, 4], Black) 0 0 (- 1) [(0, Node ([2, 4], White) 0 0 0 [])], Some 0), 1)"
    by code_simp
  have sim: "simulate_winner toy (Suc 0) (Node ([2, 4], White) 0 0 0 []) = Some (Black, 2)"
    by code_simp
  show ?thesis
    by (simp add: cycle_def sel exp sim map_child_def toy_who visit_def)
qed

lemma toy_cycle_2:
  "cycle toy 1 (new_node ([0, 2, 4], Black) (- 1)) 2
   = Some (Node ([0, 2, 4], Black) (- 1) 1 (- 1) [(2, Node ([0, 4], White) 1 1 2 [])], 4)"
proof -
  have sel: "select_root_to_leaf toy 1 (new_node ([0, 2, 4], Black) (- 1)) = Some []"
    using toy_root_leaf by (subst select_root_to_leaf.simps) simp
  have exp: "expand_from_leaf toy 2 (new_node ([0, 2, 4], Black) (- 1))
     = ((Node ([0, 2, 4], Black) 0 0 (- 1) [(2, Node ([0, 4], White) 0 0 2 [])], Some 2), 3)"
    by code_simp
  have sim: "simulate_winner toy 3 (Node ([0, 4], White) 0 0 2 []) = Some (Black, 4)"
    by code_simp
  show ?thesis
    by (simp add: cycle_def sel exp sim map_child_def toy_who visit_def)
qed

lemma toy_first_pass_0:
  "first_pass toy 4 1 0
     \<lparr>root_vec = [new_node ([0, 2, 4], Black) (- 1), new_node ([0, 2, 4], Black) (- 1)],
      average_selection = [replicate 81 0, replicate 81 0], engine = 0\<rparr>
   = Some \<lparr>root_vec = [Node ([0, 2, 4], Black) (- 1) 1 (- 1) [(0, Node ([2, 4], White) 1 1 0 [])],
                        new_node ([0, 2, 4], Black) (- 1)],
            average_selection = [replicate 81 0, replicate 81 0], engine = 2\<rparr>"
proof -
  have d: "(4 :: int) sdiv 4 = 1" by (simp add: signed_divide_int_def)
  show ?thesis
    by (simp add: first_pass_def MCTS_def d toy_cycle_0 select_action_def INT_MAX_def)
qed

lemma toy_first_pass_1:
  "first_pass toy 4 1 1
     \<lparr>root_vec = [Node ([0, 2, 4], Black) (- 1) 1 (- 1) [(0, Node ([2, 4], White) 1 1 0 [])],
                        new_node ([0, 2, 4], Black) (- 1)],
      average_selection = [replicate 81 0, replicate 81 0], engine = 2\<rparr>
   = Some \<lparr>root_vec = [Node ([0, 2, 4], Black) (- 1) 1 (- 1) [(0, Node ([2, 4], White) 1 1 0 [])],
                        Node ([0, 2, 4], Black) (- 1) 1 (- 1) [(2, Node ([0, 4], White) 1 1 2 [])]],
            average_selection = [replicate 81 0, replicate 81 0], engine = 4\<rparr>"
proof -
  have d: "(4 :: int) sdiv 4 = 1" by (simp add: signed_divide_int_def)
  show ?thesis
    by (simp add: first_pass_def MCTS_def d toy_cycle_2 select_action_def INT_MAX_def)
qed

lemma toy_first_pass_1_alone:
  "first_pass toy 4 1 1
     \<lparr>root_vec = [new_node ([0, 2, 4], Black) (- 1), new_node ([0, 2, 4], Black) (- 1)],
      average_selection = [replicate 81 0, replicate 81 0], engine = 0\<rparr>
   = Some \<lparr>root_vec = [new_node ([0, 2, 4], Black) (- 1),
                        Node ([0, 2, 4], Black) (- 1) 1 (- 1) [(0, Node ([2, 4], White) 1 1 0 [])]],
            average_selection = [replicate 81 0, replicate 81 0], engine = 2\<rparr>"
proof -
  have d: "(4 :: int) sdiv 4 = 1" by (simp add: signed_divide_int_def)
  show ?thesis
    by (simp add: first_pass_def MCTS_def d toy_cycle_0 select_action_def INT_MAX_def)
qed

lemma toy_checkpoint_pass_0:
  "checkpoint_pass toy 4 4 1 0
     \<lparr>root_vec = [new_node ([0, 2, 4], Black) (- 1), new_node ([0, 2, 4], Black) (- 1)],
      average_selection = [replicate 81 0, replicate 81 0], engine = 0\<rparr>
   = Some \<lparr>root_vec = [Node ([0, 2, 4], Black) (- 1) 1 (- 1) [(0, Node ([2, 4], White) 1 1 0 [])],
                        new_node ([0, 2, 4], Black) (- 1)],
            average_selection = [(replicate 81 0)[0 := 1], replicate 81 0], engine = 2\<rparr>"
proof -
  have d: "(4 :: int) sdiv 4 = 1" by (simp add: signed_divide_int_def)
  show ?thesis
    by (simp add: checkpoint_pass_def MCTS_def d toy_cycle_0 select_action_def INT_MAX_def)
qed

subsection \<open>What the workers share\<close>

text \<open>
  C10, as the code has it. The block of worker \<open>tid\<close>, in either parallel region,
  leaves the trees and the rows of all other workers as they were. Its random
  source is not its own: the call of \<open>MCTS\<close> takes the engine found in the common
  state, that is the engine as the block before left it, and puts the engine back
  there for the next block.
\<close>

theorem worker_ownership:
  assumes "tid < length (root_vec s)"
    and "first_pass E N c tid s = Some s' \<or> checkpoint_pass E N split c tid s = Some s'"
  shows "(\<forall>i. i \<noteq> tid \<longrightarrow> root_vec s' ! i = root_vec s ! i
              \<and> average_selection s' ! i = average_selection s ! i)
       \<and> (\<exists>a n. MCTS E n (engine s) c (root_vec s ! tid)
              = Some (a, root_vec s' ! tid, engine s'))"
  using assms(2)
proof
  assume "first_pass E N c tid s = Some s'"
  then obtain a t g where m: "MCTS E (N sdiv 4) (engine s) c (root_vec s ! tid) = Some (a, t, g)"
    and s': "s' = s\<lparr>root_vec := (root_vec s)[tid := t], engine := g\<rparr>"
    by (auto simp: first_pass_def split: option.splits)
  from s' assms(1) m show ?thesis by auto
next
  assume "checkpoint_pass E N split c tid s = Some s'"
  then obtain a t g where m: "MCTS E (N sdiv split) (engine s) c (root_vec s ! tid) = Some (a, t, g)"
    and s': "s' = s\<lparr>root_vec := (root_vec s)[tid := t],
                 average_selection :=
                   (average_selection s)[tid := record_children (child t) (average_selection s ! tid)],
                 engine := g\<rparr>"
    by (auto simp: checkpoint_pass_def split: option.splits)
  from s' assms(1) m show ?thesis by auto
qed

theorem worker_ownership_witness:
  "(\<exists>a n. MCTS toy n 0 1 (new_node ([0, 2, 4], Black) (- 1))
          = Some (a, Node ([0, 2, 4], Black) (- 1) 1 (- 1) [(0, Node ([2, 4], White) 1 1 0 [])], 2))
   \<and> (\<exists>a n. MCTS toy n 2 1 (new_node ([0, 2, 4], Black) (- 1))
          = Some (a, Node ([0, 2, 4], Black) (- 1) 1 (- 1) [(2, Node ([0, 4], White) 1 1 2 [])], 4))"
proof -
  let ?s0 = "\<lparr>root_vec = [new_node ([0, 2, 4], Black) (- 1), new_node ([0, 2, 4], Black) (- 1)],
      average_selection = [replicate 81 0, replicate 81 0], engine = 0 :: nat\<rparr>"
  let ?s1 = "\<lparr>root_vec = [Node ([0, 2, 4], Black) (- 1) 1 (- 1) [(0, Node ([2, 4], White) 1 1 0 [])],
                        new_node ([0, 2, 4], Black) (- 1)],
            average_selection = [replicate 81 0, replicate 81 0], engine = 2 :: nat\<rparr>"
  have l0: "0 < length (root_vec ?s0)" and l1: "1 < length (root_vec ?s1)" by simp_all
  note a = worker_ownership [OF l0 disjI2 [OF toy_checkpoint_pass_0], THEN conjunct2]
  note b = worker_ownership [OF l1 disjI1 [OF toy_first_pass_1], THEN conjunct2]
  from a b show ?thesis by simp
qed

text \<open>
  C10 as stated fails. Two workers start from equal roots with one iteration each.
  Run after worker \<open>0\<close>, worker \<open>1\<close> expands position \<open>2\<close> and leaves the engine at \<open>4\<close>;
  run alone from the same state it expands position \<open>0\<close>: what worker \<open>1\<close> draws
  depends on what worker \<open>0\<close> has drawn from the same engine.
\<close>

theorem engine_is_shared:
  "omp_parallel (first_pass toy 4 1) 2
     \<lparr>root_vec = [new_node ([0, 2, 4], Black) (- 1), new_node ([0, 2, 4], Black) (- 1)],
      average_selection = [replicate 81 0, replicate 81 0], engine = 0\<rparr>
   = Some \<lparr>root_vec = [Node ([0, 2, 4], Black) (- 1) 1 (- 1) [(0, Node ([2, 4], White) 1 1 0 [])],
                        Node ([0, 2, 4], Black) (- 1) 1 (- 1) [(2, Node ([0, 4], White) 1 1 2 [])]],
            average_selection = [replicate 81 0, replicate 81 0], engine = 4\<rparr>
   \<and> first_pass toy 4 1 1
     \<lparr>root_vec = [new_node ([0, 2, 4], Black) (- 1), new_node ([0, 2, 4], Black) (- 1)],
      average_selection = [replicate 81 0, replicate 81 0], engine = 0\<rparr>
   = Some \<lparr>root_vec = [new_node ([0, 2, 4], Black) (- 1),
                        Node ([0, 2, 4], Black) (- 1) 1 (- 1) [(0, Node ([2, 4], White) 1 1 0 [])]],
            average_selection = [replicate 81 0, replicate 81 0], engine = 2\<rparr>"
proof -
  have ids: "[0..<2] = [0, 1 :: nat]" by (simp add: upt_conv_Cons)
  show ?thesis
    using toy_first_pass_0 toy_first_pass_1 toy_first_pass_1_alone
    by (simp add: omp_parallel_def ids)
qed

end
